theory Spec2Isabelle
  imports Complex_Main
begin

section \<open>Data model of the floor plan editor\<close>

text \<open>
  The embedding follows \<^verbatim>\<open>frontend/lib/editor/editorUtils.ts\<close>.  A TypeScript
  \<^verbatim>\<open>number\<close> is modelled as a real number: arithmetic is exact, and the rounding,
  overflow, infinities and NaN of IEEE doubles are outside the model (so is a division
  by a zero grid size or a zero room extent, which the data model excludes).
  Object fields keep their source names behind a short prefix, since \<open>x\<close>, \<open>id\<close> or
  \<open>size\<close> cannot be field names here.
\<close>

record Point =
  p_x :: real
  p_y :: real

record BoundingBox =
  b_x :: real
  b_y :: real
  b_width :: real
  b_height :: real

record GridConfig =
  g_size :: real
  snapEnabled :: bool
  visible :: bool

record EditorRoom =
  room_id :: string
  roomType :: string
  displayName :: string
  points :: "Point list"
  bounds :: BoundingBox
  fillColor :: string
  trainingColor :: string
  areaSqft :: real
  widthInches :: real
  heightInches :: real
  estimatedSize :: string
  isSelected :: bool
  isHovered :: bool
  isLocked :: bool

text \<open>
  \<^verbatim>\<open>MIN_ROOM_SIZE\<close> and \<^verbatim>\<open>CANVAS_SIZE\<close> are imported from \<^verbatim>\<open>editorTypes.ts\<close>,
  which is not among the sources at hand.  Every function that reads them takes them
  as the parameter \<open>K\<close>, so that the results hold for whatever values they have.
\<close>

record EditorConsts =
  MIN_ROOM_SIZE :: real
  CANVAS_SIZE :: real

section \<open>Grid snapping\<close>

text \<open>\<^verbatim>\<open>Math.round\<close> rounds halves upwards, as \<^const>\<open>round\<close> does.\<close>

definition snapToGrid :: "real \<Rightarrow> real \<Rightarrow> real" where
  "snapToGrid v gridSize = real_of_int (round (v / gridSize)) * gridSize"

definition snapPointToGrid :: "Point \<Rightarrow> GridConfig \<Rightarrow> Point" where
  "snapPointToGrid point grid =
     (if \<not> snapEnabled grid then point
      else \<lparr>p_x = snapToGrid (p_x point) (g_size grid),
            p_y = snapToGrid (p_y point) (g_size grid)\<rparr>)"

definition snapBoundsToGrid :: "EditorConsts \<Rightarrow> BoundingBox \<Rightarrow> GridConfig \<Rightarrow> BoundingBox" where
  "snapBoundsToGrid K b grid =
     (if \<not> snapEnabled grid then b
      else
        let x = snapToGrid (b_x b) (g_size grid);
            y = snapToGrid (b_y b) (g_size grid);
            right = snapToGrid (b_x b + b_width b) (g_size grid);
            bottom = snapToGrid (b_y b + b_height b) (g_size grid)
        in \<lparr>b_x = x, b_y = y,
            b_width = max (MIN_ROOM_SIZE K) (right - x),
            b_height = max (MIN_ROOM_SIZE K) (bottom - y)\<rparr>)"

section \<open>Polygon and bounding box math\<close>




definition boundsToPoints :: "BoundingBox \<Rightarrow> Point list" where
  "boundsToPoints b =
     [\<lparr>p_x = b_x b, p_y = b_y b\<rparr>,
      \<lparr>p_x = b_x b + b_width b, p_y = b_y b\<rparr>,
      \<lparr>p_x = b_x b + b_width b, p_y = b_y b + b_height b\<rparr>,
      \<lparr>p_x = b_x b, p_y = b_y b + b_height b\<rparr>]"

section \<open>Collision detection\<close>

definition boundsOverlap :: "BoundingBox \<Rightarrow> BoundingBox \<Rightarrow> bool" where
  "boundsOverlap a b =
     (\<not> (b_x a + b_width a \<le> b_x b \<or>
         b_x b + b_width b \<le> b_x a \<or>
         b_y a + b_height a \<le> b_y b \<or>
         b_y b + b_height b \<le> b_y a))"

definition boundsAdjacent :: "BoundingBox \<Rightarrow> BoundingBox \<Rightarrow> real \<Rightarrow> bool" where
  "boundsAdjacent a b tolerance =
     (if boundsOverlap a b then False
      else
        let gapLeft = b_x a - (b_x b + b_width b);
            gapRight = b_x b - (b_x a + b_width a);
            gapTop = b_y a - (b_y b + b_height b);
            gapBottom = b_y b - (b_y a + b_height a);
            horizontalOverlap = (\<not> (b_y a + b_height a \<le> b_y b \<or> b_y b + b_height b \<le> b_y a));
            horizontallyAdjacent = (horizontalOverlap \<and>
              ((gapLeft \<ge> 0 \<and> gapLeft \<le> tolerance) \<or> (gapRight \<ge> 0 \<and> gapRight \<le> tolerance)));
            verticalOverlap = (\<not> (b_x a + b_width a \<le> b_x b \<or> b_x b + b_width b \<le> b_x a));
            verticallyAdjacent = (verticalOverlap \<and>
              ((gapTop \<ge> 0 \<and> gapTop \<le> tolerance) \<or> (gapBottom \<ge> 0 \<and> gapBottom \<le> tolerance)))
        in horizontallyAdjacent \<or> verticallyAdjacent)"

definition getBoundsCenter :: "BoundingBox \<Rightarrow> Point" where
  "getBoundsCenter b = \<lparr>p_x = b_x b + b_width b / 2, p_y = b_y b + b_height b / 2\<rparr>"

section \<open>Dimension calculations\<close>

definition pixelsToSqft :: "real \<Rightarrow> real \<Rightarrow> real" where
  "pixelsToSqft pixelArea canvasSize =
     (let typicalHouseSqft = 2000;
          canvasArea = canvasSize * canvasSize;
          scaleFactor = typicalHouseSqft / canvasArea
      in pixelArea * scaleFactor)"


definition pixelsToInches :: "real \<Rightarrow> real \<Rightarrow> real" where
  "pixelsToInches pixels canvasSize =
     (let typicalWidthInches = 600 in (pixels / canvasSize) * typicalWidthInches)"

section \<open>Adjacency graph\<close>

datatype ConnectionSide = SideLeft | SideRight | SideTop | SideBottom

record RoomConnection =
  roomId :: string
  side :: ConnectionSide
  offset :: real

text \<open>The body of the \<^verbatim>\<open>if (boundsAdjacent(...))\<close> in \<^verbatim>\<open>findAdjacentRooms\<close>.\<close>

definition connectionOf :: "EditorRoom \<Rightarrow> EditorRoom \<Rightarrow> RoomConnection" where
  "connectionOf room other =
     (let roomCenter = getBoundsCenter (bounds room);
          otherCenter = getBoundsCenter (bounds other);
          dx = p_x otherCenter - p_x roomCenter;
          dy = p_y otherCenter - p_y roomCenter
      in if \<bar>dx\<bar> > \<bar>dy\<bar> then
           let overlapTop = max (b_y (bounds room)) (b_y (bounds other));
               overlapBottom = min (b_y (bounds room) + b_height (bounds room))
                                   (b_y (bounds other) + b_height (bounds other));
               off = (((overlapTop + overlapBottom) / 2) - b_y (bounds room)) / b_height (bounds room)
           in \<lparr>roomId = room_id other,
               side = (if dx > 0 then SideRight else SideLeft),
               offset = max 0 (min 1 off)\<rparr>
         else
           let overlapLeft = max (b_x (bounds room)) (b_x (bounds other));
               overlapRight = min (b_x (bounds room) + b_width (bounds room))
                                  (b_x (bounds other) + b_width (bounds other));
               off = (((overlapLeft + overlapRight) / 2) - b_x (bounds room)) / b_width (bounds room)
           in \<lparr>roomId = room_id other,
               side = (if dy > 0 then SideBottom else SideTop),
               offset = max 0 (min 1 off)\<rparr>)"

fun findAdjacentRooms :: "EditorRoom \<Rightarrow> EditorRoom list \<Rightarrow> real \<Rightarrow> RoomConnection list" where
  "findAdjacentRooms room [] tolerance = []"
| "findAdjacentRooms room (other # rest) tolerance =
     (if room_id other = room_id room then findAdjacentRooms room rest tolerance
      else if boundsAdjacent (bounds room) (bounds other) tolerance
        then connectionOf room other # findAdjacentRooms room rest tolerance
      else findAdjacentRooms room rest tolerance)"

text \<open>The graph is a \<^verbatim>\<open>Map\<close> from room id to connections; a later room with the same id
  overwrites the entry of an earlier one.\<close>

fun graphLoop ::
    "EditorRoom list \<Rightarrow> EditorRoom list \<Rightarrow> (string \<rightharpoonup> RoomConnection list)
      \<Rightarrow> (string \<rightharpoonup> RoomConnection list)" where
  "graphLoop rooms [] connections = connections"
| "graphLoop rooms (room # rest) connections =
     graphLoop rooms rest (connections(room_id room \<mapsto> findAdjacentRooms room rooms 5))"

definition buildConnectivityGraph :: "EditorRoom list \<Rightarrow> (string \<rightharpoonup> RoomConnection list)" where
  "buildConnectivityGraph rooms = graphLoop rooms rooms Map.empty"

definition calculateConnectedPosition ::
    "BoundingBox \<Rightarrow> EditorRoom \<Rightarrow> RoomConnection \<Rightarrow> Point" where
  "calculateConnectedPosition movedBounds connectedRoom connection =
     (case side connection of
        SideRight \<Rightarrow>
          \<lparr>p_x = b_x movedBounds + b_width movedBounds,
           p_y = b_y movedBounds + (offset connection * b_height movedBounds)
                   - (b_height (bounds connectedRoom) / 2)\<rparr>
      | SideLeft \<Rightarrow>
          \<lparr>p_x = b_x movedBounds - b_width (bounds connectedRoom),
           p_y = b_y movedBounds + (offset connection * b_height movedBounds)
                   - (b_height (bounds connectedRoom) / 2)\<rparr>
      | SideBottom \<Rightarrow>
          \<lparr>p_x = b_x movedBounds + (offset connection * b_width movedBounds)
                   - (b_width (bounds connectedRoom) / 2),
           p_y = b_y movedBounds + b_height movedBounds\<rparr>
      | SideTop \<Rightarrow>
          \<lparr>p_x = b_x movedBounds + (offset connection * b_width movedBounds)
                   - (b_width (bounds connectedRoom) / 2),
           p_y = b_y movedBounds - b_height (bounds connectedRoom)\<rparr>)"

section \<open>The spring network solver\<close>

text \<open>
  The solver keeps its working boxes in a \<^verbatim>\<open>Map\<close> from room id to box.  A lookup
  \<^verbatim>\<open>workingBounds.get(id)!\<close> that finds nothing yields \<^verbatim>\<open>undefined\<close>, and reading
  a field of it throws; in the model such a lookup makes the step return \<open>None\<close>.
  A \<^verbatim>\<open>for ... of\<close> loop whose body may fail is a fold that stops at the first failure.
\<close>

type_synonym WorkingBounds = "string \<rightharpoonup> BoundingBox"

fun foldM :: "('a \<Rightarrow> 's \<Rightarrow> 's option) \<Rightarrow> 'a list \<Rightarrow> 's \<Rightarrow> 's option" where
  "foldM f [] s = Some s"
| "foldM f (x # xs) s = (case f x s of None \<Rightarrow> None | Some s' \<Rightarrow> foldM f xs s')"

text \<open>\<^verbatim>\<open>rooms.forEach(r => workingBounds.set(r.id, { ...r.bounds }))\<close>.\<close>

fun copyBounds :: "EditorRoom list \<Rightarrow> WorkingBounds \<Rightarrow> WorkingBounds" where
  "copyBounds [] wb = wb"
| "copyBounds (r # rest) wb = copyBounds rest (wb(room_id r \<mapsto> bounds r))"

text \<open>The two assignments that keep a box within the canvas (they follow every snap).\<close>

definition keepWithinCanvas :: "EditorConsts \<Rightarrow> BoundingBox \<Rightarrow> BoundingBox" where
  "keepWithinCanvas K snapped =
     snapped\<lparr>b_x := max 0 (min (CANVAS_SIZE K - b_width snapped) (b_x snapped)),
             b_y := max 0 (min (CANVAS_SIZE K - b_height snapped) (b_y snapped))\<rparr>"

text \<open>Moving a box part of the way to its ideal position: the common body of the first
  pass (strength 0.6, relative to the moved room) and of the third pass (strength 0.3,
  relative to the parent).\<close>

definition springPull ::
    "real \<Rightarrow> BoundingBox \<Rightarrow> BoundingBox \<Rightarrow> EditorRoom \<Rightarrow> RoomConnection \<Rightarrow> BoundingBox" where
  "springPull springStrength anchorBounds currentBounds connectedRoom connection =
     (let idealPos = calculateConnectedPosition anchorBounds connectedRoom connection;
          newX = b_x currentBounds + (p_x idealPos - b_x currentBounds) * springStrength;
          newY = b_y currentBounds + (p_y idealPos - b_y currentBounds) * springStrength
      in currentBounds\<lparr>b_x := newX, b_y := newY\<rparr>)"

text \<open>First pass, for one direct connection.\<close>

definition attractStep ::
    "string \<Rightarrow> EditorRoom list \<Rightarrow> RoomConnection \<Rightarrow> WorkingBounds \<Rightarrow> WorkingBounds option" where
  "attractStep movedRoomId rooms connection wb =
     (case find (\<lambda>r. room_id r = roomId connection) rooms of
        None \<Rightarrow> Some wb
      | Some connectedRoom \<Rightarrow>
          if isLocked connectedRoom then Some wb
          else
            (case wb movedRoomId of
               None \<Rightarrow> None
             | Some movedBounds \<Rightarrow>
                 (case wb (roomId connection) of
                    None \<Rightarrow> None
                  | Some currentBounds \<Rightarrow>
                      Some (wb(roomId connection \<mapsto>
                              springPull (6 / 10) movedBounds currentBounds connectedRoom connection)))))"

text \<open>Second pass.  \<^verbatim>\<open>Math.sqrt(dx * dx + dy * dy) || 1\<close> replaces a zero distance by 1.\<close>

definition pushDist :: "real \<Rightarrow> real \<Rightarrow> real" where
  "pushDist dx dy = (let d = sqrt (dx * dx + dy * dy) in if d = 0 then 1 else d)"

definition overlapAlongX :: "BoundingBox \<Rightarrow> BoundingBox \<Rightarrow> real" where
  "overlapAlongX bnds otherBounds =
     min (b_x bnds + b_width bnds - b_x otherBounds)
         (b_x otherBounds + b_width otherBounds - b_x bnds)"

definition overlapAlongY :: "BoundingBox \<Rightarrow> BoundingBox \<Rightarrow> real" where
  "overlapAlongY bnds otherBounds =
     min (b_y bnds + b_height bnds - b_y otherBounds)
         (b_y otherBounds + b_height otherBounds - b_y bnds)"

definition repelAccum ::
    "WorkingBounds \<Rightarrow> EditorRoom \<Rightarrow> BoundingBox \<Rightarrow> EditorRoom \<Rightarrow> real \<times> real
      \<Rightarrow> (real \<times> real) option" where
  "repelAccum wb room bnds other adjust =
     (if room_id other = room_id room then Some adjust
      else
        (case wb (room_id other) of
           None \<Rightarrow> None
         | Some otherBounds \<Rightarrow>
             if boundsOverlap bnds otherBounds then
               let centerA = getBoundsCenter bnds;
                   centerB = getBoundsCenter otherBounds;
                   dx = p_x centerA - p_x centerB;
                   dy = p_y centerA - p_y centerB;
                   dist = pushDist dx dy;
                   overlapX = overlapAlongX bnds otherBounds;
                   overlapY = overlapAlongY bnds otherBounds
               in if overlapX < overlapY
                  then Some (fst adjust + (if dx > 0 then 1 else - 1) * (overlapX + 2), snd adjust)
                  else Some (fst adjust, snd adjust + (if dy > 0 then 1 else - 1) * (overlapY + 2))
             else Some adjust))"

definition repelStep ::
    "string \<Rightarrow> EditorRoom list \<Rightarrow> EditorRoom \<Rightarrow> WorkingBounds \<Rightarrow> WorkingBounds option" where
  "repelStep movedRoomId rooms room wb =
     (if room_id room = movedRoomId then Some wb
      else if isLocked room then Some wb
      else
        (case wb (room_id room) of
           None \<Rightarrow> None
         | Some bnds \<Rightarrow>
             (case foldM (repelAccum wb room bnds) rooms (0, 0) of
                None \<Rightarrow> None
              | Some adjust \<Rightarrow>
                  if fst adjust \<noteq> 0 \<or> snd adjust \<noteq> 0
                  then Some (wb(room_id room \<mapsto>
                               bnds\<lparr>b_x := b_x bnds + fst adjust, b_y := b_y bnds + snd adjust\<rparr>))
                  else Some wb)))"

text \<open>Third pass, for one secondary connection of a direct connection.\<close>

definition secondaryStep ::
    "string \<Rightarrow> EditorRoom list \<Rightarrow> RoomConnection \<Rightarrow> RoomConnection \<Rightarrow> WorkingBounds
      \<Rightarrow> WorkingBounds option" where
  "secondaryStep movedRoomId rooms connection secondary wb =
     (if roomId secondary = movedRoomId then Some wb
      else
        (case find (\<lambda>r. room_id r = roomId secondary) rooms of
           None \<Rightarrow> Some wb
         | Some secondaryRoom \<Rightarrow>
             if isLocked secondaryRoom then Some wb
             else
               (case wb (roomId connection) of
                  None \<Rightarrow> None
                | Some parentBounds \<Rightarrow>
                    (case wb (roomId secondary) of
                       None \<Rightarrow> None
                     | Some currentBounds \<Rightarrow>
                         Some (wb(roomId secondary \<mapsto>
                                 springPull (3 / 10) parentBounds currentBounds secondaryRoom secondary))))))"

definition secondaryPass ::
    "string \<Rightarrow> EditorRoom list \<Rightarrow> (string \<rightharpoonup> RoomConnection list) \<Rightarrow> RoomConnection
      \<Rightarrow> WorkingBounds \<Rightarrow> WorkingBounds option" where
  "secondaryPass movedRoomId rooms originalGraph connection wb =
     (let secondaryConnections =
            (case originalGraph (roomId connection) of None \<Rightarrow> [] | Some cs \<Rightarrow> cs)
      in foldM (secondaryStep movedRoomId rooms connection) secondaryConnections wb)"

text \<open>The loop \<^verbatim>\<open>for (let iter = 0; iter < iterations; iter++)\<close>, started at \<open>iter = 0\<close>.\<close>

function settle ::
    "string \<Rightarrow> EditorRoom list \<Rightarrow> (string \<rightharpoonup> RoomConnection list) \<Rightarrow> RoomConnection list
      \<Rightarrow> real \<Rightarrow> nat \<Rightarrow> WorkingBounds \<Rightarrow> WorkingBounds option" where
  "settle movedRoomId rooms originalGraph directConnections iterations iter wb =
     (if real iter < iterations then
        (case foldM (attractStep movedRoomId rooms) directConnections wb of
           None \<Rightarrow> None
         | Some wb1 \<Rightarrow>
             (case foldM (repelStep movedRoomId rooms) rooms wb1 of
                None \<Rightarrow> None
              | Some wb2 \<Rightarrow>
                  (case (if iter < 3
                         then foldM (secondaryPass movedRoomId rooms originalGraph) directConnections wb2
                         else Some wb2) of
                     None \<Rightarrow> None
                   | Some wb3 \<Rightarrow>
                       settle movedRoomId rooms originalGraph directConnections iterations (iter + 1) wb3)))
      else Some wb)"
  by pat_completeness auto
termination
proof (relation "measure (\<lambda>(m, rs, g, dc, iterations, iter, wb). nat \<lceil>iterations\<rceil> - iter)")
  show "wf (measure (\<lambda>(m, rs, g, dc, iterations, iter, wb). nat \<lceil>iterations :: real\<rceil> - iter))"
    by simp
next
  fix iterations :: real and iter :: nat
  assume "real iter < iterations"
  then have "int iter < \<lceil>iterations\<rceil>"
    by (simp add: less_ceiling_iff)
  then show "\<And>m rs g dc wb wb'. ((m, rs, g, dc, iterations, iter + 1, wb'), (m, rs, g, dc, iterations, iter, wb))
        \<in> measure (\<lambda>(m, rs, g, dc, iterations, iter, wb). nat \<lceil>iterations\<rceil> - iter)"
    by simp
qed

declare settle.simps [simp del]

text \<open>\<^verbatim>\<open>workingBounds.forEach\<close>: every entry is snapped and kept within the canvas.\<close>

definition snapAll :: "EditorConsts \<Rightarrow> GridConfig \<Rightarrow> WorkingBounds \<Rightarrow> WorkingBounds" where
  "snapAll K grid wb =
     (\<lambda>roomId. map_option (\<lambda>bnds. keepWithinCanvas K (snapBoundsToGrid K bnds grid)) (wb roomId))"

text \<open>The final overlap resolution.  \<open>cleanupShift\<close> is the copy \<^verbatim>\<open>{ ...bounds }\<close> of the
  box the room had when its turn began, pushed away from the box it overlaps;
  \<open>cleanupPush\<close> snaps that copy and keeps it within the canvas.\<close>

definition cleanupShift :: "GridConfig \<Rightarrow> BoundingBox \<Rightarrow> BoundingBox \<Rightarrow> BoundingBox" where
  "cleanupShift grid bnds otherBounds =
     (let centerA = getBoundsCenter bnds;
          centerB = getBoundsCenter otherBounds;
          overlapX = overlapAlongX bnds otherBounds;
          overlapY = overlapAlongY bnds otherBounds
      in if overlapX < overlapY
         then bnds\<lparr>b_x := b_x bnds +
                (if p_x centerA > p_x centerB then 1 else - 1) * (overlapX + g_size grid)\<rparr>
         else bnds\<lparr>b_y := b_y bnds +
                (if p_y centerA > p_y centerB then 1 else - 1) * (overlapY + g_size grid)\<rparr>)"

definition cleanupPush ::
    "EditorConsts \<Rightarrow> GridConfig \<Rightarrow> BoundingBox \<Rightarrow> BoundingBox \<Rightarrow> BoundingBox" where
  "cleanupPush K grid bnds otherBounds =
     (let newBounds = cleanupShift grid bnds otherBounds
      in keepWithinCanvas K (snapBoundsToGrid K newBounds grid))"

definition cleanupInner ::
    "EditorConsts \<Rightarrow> GridConfig \<Rightarrow> EditorRoom \<Rightarrow> BoundingBox \<Rightarrow> EditorRoom
      \<Rightarrow> WorkingBounds \<times> bool \<Rightarrow> (WorkingBounds \<times> bool) option" where
  "cleanupInner K grid room bnds other st =
     (if room_id other = room_id room then Some st
      else
        (case fst st (room_id other) of
           None \<Rightarrow> None
         | Some otherBounds \<Rightarrow>
             if boundsOverlap bnds otherBounds
             then Some ((fst st)(room_id room \<mapsto> cleanupPush K grid bnds otherBounds), True)
             else Some st))"

definition cleanupRoom ::
    "EditorConsts \<Rightarrow> GridConfig \<Rightarrow> string \<Rightarrow> EditorRoom list \<Rightarrow> EditorRoom
      \<Rightarrow> WorkingBounds \<times> bool \<Rightarrow> (WorkingBounds \<times> bool) option" where
  "cleanupRoom K grid movedRoomId rooms room st =
     (if room_id room = movedRoomId then Some st
      else if isLocked room then Some st
      else
        (case fst st (room_id room) of
           None \<Rightarrow> None
         | Some bnds \<Rightarrow> foldM (cleanupInner K grid room bnds) rooms st))"

text \<open>\<^verbatim>\<open>while (hasOverlap && safetyCounter < 10)\<close>; the result carries the final values of
  both loop variables.\<close>

function cleanupLoop ::
    "EditorConsts \<Rightarrow> GridConfig \<Rightarrow> string \<Rightarrow> EditorRoom list \<Rightarrow> WorkingBounds \<Rightarrow> bool \<Rightarrow> nat
      \<Rightarrow> (WorkingBounds \<times> bool \<times> nat) option" where
  "cleanupLoop K grid movedRoomId rooms wb hasOverlap safetyCounter =
     (if hasOverlap \<and> safetyCounter < 10 then
        (case foldM (cleanupRoom K grid movedRoomId rooms) rooms (wb, False) of
           None \<Rightarrow> None
         | Some st \<Rightarrow> cleanupLoop K grid movedRoomId rooms (fst st) (snd st) (safetyCounter + 1))
      else Some (wb, hasOverlap, safetyCounter))"
  by pat_completeness auto
termination
  by (relation "measure (\<lambda>(K, grid, m, rs, wb, h, safetyCounter). 10 - safetyCounter)") auto

declare cleanupLoop.simps [simp del]

text \<open>The body of the final \<^verbatim>\<open>rooms.map\<close>: a room whose box did not change is returned
  as it is.\<close>

definition updateRoom :: "EditorConsts \<Rightarrow> BoundingBox \<Rightarrow> EditorRoom \<Rightarrow> EditorRoom" where
  "updateRoom K newRoomBounds room =
     (if b_x newRoomBounds = b_x (bounds room) \<and>
         b_y newRoomBounds = b_y (bounds room) \<and>
         b_width newRoomBounds = b_width (bounds room) \<and>
         b_height newRoomBounds = b_height (bounds room)
      then room
      else room\<lparr>bounds := newRoomBounds,
                points := boundsToPoints newRoomBounds,
                widthInches := pixelsToInches (b_width newRoomBounds) (CANVAS_SIZE K),
                heightInches := pixelsToInches (b_height newRoomBounds) (CANVAS_SIZE K),
                areaSqft := pixelsToSqft (b_width newRoomBounds * b_height newRoomBounds)
                              (CANVAS_SIZE K)\<rparr>)"

fun applyUpdates :: "EditorConsts \<Rightarrow> WorkingBounds \<Rightarrow> EditorRoom list \<Rightarrow> EditorRoom list option" where
  "applyUpdates K wb [] = Some []"
| "applyUpdates K wb (room # rest) =
     (case wb (room_id room) of
        None \<Rightarrow> None
      | Some newRoomBounds \<Rightarrow>
          (case applyUpdates K wb rest of
             None \<Rightarrow> None
           | Some rest' \<Rightarrow> Some (updateRoom K newRoomBounds room # rest')))"

text \<open>
  \<open>applySpringNetworkRun\<close> is the whole function; besides the room list it reports the
  values of \<^verbatim>\<open>hasOverlap\<close> and \<^verbatim>\<open>safetyCounter\<close> at the exit of the cleanup loop, which
  the source does not return.  \<open>applySpringNetwork\<close> is what the caller gets.
\<close>

definition applySpringNetworkRun ::
    "EditorConsts \<Rightarrow> string \<Rightarrow> BoundingBox \<Rightarrow> EditorRoom list \<Rightarrow> GridConfig \<Rightarrow> real
      \<Rightarrow> (EditorRoom list \<times> bool \<times> nat) option" where
  "applySpringNetworkRun K movedRoomId newBounds rooms grid iterations =
     (let originalGraph = buildConnectivityGraph rooms;
          workingBounds0 = copyBounds rooms Map.empty;
          workingBounds1 = workingBounds0(movedRoomId \<mapsto> newBounds);
          directConnections = (case originalGraph movedRoomId of None \<Rightarrow> [] | Some cs \<Rightarrow> cs)
      in case settle movedRoomId rooms originalGraph directConnections iterations 0 workingBounds1 of
           None \<Rightarrow> None
         | Some workingBounds2 \<Rightarrow>
             (case cleanupLoop K grid movedRoomId rooms (snapAll K grid workingBounds2) True 0 of
                None \<Rightarrow> None
              | Some fin \<Rightarrow>
                  (case applyUpdates K (fst fin) rooms of
                     None \<Rightarrow> None
                   | Some result \<Rightarrow> Some (result, snd fin))))"

definition applySpringNetwork ::
    "EditorConsts \<Rightarrow> string \<Rightarrow> BoundingBox \<Rightarrow> EditorRoom list \<Rightarrow> GridConfig \<Rightarrow> real
      \<Rightarrow> EditorRoom list option" where
  "applySpringNetwork K movedRoomId newBounds rooms grid iterations =
     map_option fst (applySpringNetworkRun K movedRoomId newBounds rooms grid iterations)"

section \<open>The solver over a store of objects\<close>

text \<open>
  The functions above work on values, so they cannot tell an object that was copied from
  one that is shared.  For the question which objects a call writes to, the boxes live
  in a store: a reference is an index into the list of all box objects, an object
  literal or a spread \<^verbatim>\<open>{ ...b }\<close> allocates a new object at the end, and an assignment
  to a field overwrites the object at its index.  References come from the caller or
  from an allocation, so they are always within the store.  A room object holds a
  reference to its box; its other fields are values (the \<open>bounds\<close> component of
  \<open>o_fields\<close> is not read, \<open>roomAt\<close> replaces it by the box the reference points to).
  The working map keeps its entries in insertion order, as a \<^verbatim>\<open>Map\<close> does.
  Whatever only reads boxes is taken from the value model.
\<close>

type_synonym Heap = "BoundingBox list"

type_synonym BoundsMap = "(string \<times> nat) list"

record RoomObj =
  o_fields :: EditorRoom
  o_bounds :: nat

definition roomAt :: "Heap \<Rightarrow> RoomObj \<Rightarrow> EditorRoom" where
  "roomAt h r = (o_fields r)\<lparr>bounds := h ! o_bounds r\<rparr>"

definition alloc :: "BoundingBox \<Rightarrow> Heap \<Rightarrow> nat \<times> Heap" where
  "alloc b h = (length h, h @ [b])"

text \<open>\<^verbatim>\<open>Map.prototype.set\<close>: an existing key keeps its place, a new key goes to the end.\<close>

fun mapSet :: "string \<Rightarrow> nat \<Rightarrow> BoundsMap \<Rightarrow> BoundsMap" where
  "mapSet k v [] = [(k, v)]"
| "mapSet k v (e # rest) = (if fst e = k then (k, v) # rest else e # mapSet k v rest)"

definition boundsView :: "Heap \<Rightarrow> BoundsMap \<Rightarrow> WorkingBounds" where
  "boundsView h wb = (\<lambda>k. map_option (\<lambda>a. h ! a) (map_of wb k))"

fun copyBoundsS :: "RoomObj list \<Rightarrow> Heap \<times> BoundsMap \<Rightarrow> Heap \<times> BoundsMap" where
  "copyBoundsS [] st = st"
| "copyBoundsS (r # rest) st =
     (let copy = alloc (fst st ! o_bounds r) (fst st)
      in copyBoundsS rest (snd copy, mapSet (room_id (o_fields r)) (fst copy) (snd st)))"

definition attractStepS ::
    "string \<Rightarrow> RoomObj list \<Rightarrow> RoomConnection \<Rightarrow> Heap \<times> BoundsMap \<Rightarrow> (Heap \<times> BoundsMap) option" where
  "attractStepS movedRoomId rooms connection st =
     (case find (\<lambda>r. room_id (o_fields r) = roomId connection) rooms of
        None \<Rightarrow> Some st
      | Some connectedRoom \<Rightarrow>
          if isLocked (o_fields connectedRoom) then Some st
          else
            (case map_of (snd st) movedRoomId of
               None \<Rightarrow> None
             | Some movedBounds \<Rightarrow>
                 (case map_of (snd st) (roomId connection) of
                    None \<Rightarrow> None
                  | Some currentBounds \<Rightarrow>
                      let fresh = alloc (springPull (6 / 10) (fst st ! movedBounds) (fst st ! currentBounds)
                                           (roomAt (fst st) connectedRoom) connection) (fst st)
                      in Some (snd fresh, mapSet (roomId connection) (fst fresh) (snd st)))))"

definition repelStepS ::
    "string \<Rightarrow> RoomObj list \<Rightarrow> RoomObj \<Rightarrow> Heap \<times> BoundsMap \<Rightarrow> (Heap \<times> BoundsMap) option" where
  "repelStepS movedRoomId rooms room st =
     (if room_id (o_fields room) = movedRoomId then Some st
      else if isLocked (o_fields room) then Some st
      else
        (case map_of (snd st) (room_id (o_fields room)) of
           None \<Rightarrow> None
         | Some bnds \<Rightarrow>
             (case foldM (repelAccum (boundsView (fst st) (snd st)) (roomAt (fst st) room) (fst st ! bnds))
                         (map (roomAt (fst st)) rooms) (0, 0) of
                None \<Rightarrow> None
              | Some adjust \<Rightarrow>
                  if fst adjust \<noteq> 0 \<or> snd adjust \<noteq> 0
                  then
                    let fresh = alloc ((fst st ! bnds)\<lparr>b_x := b_x (fst st ! bnds) + fst adjust,
                                                       b_y := b_y (fst st ! bnds) + snd adjust\<rparr>) (fst st)
                    in Some (snd fresh, mapSet (room_id (o_fields room)) (fst fresh) (snd st))
                  else Some st)))"

definition secondaryStepS ::
    "string \<Rightarrow> RoomObj list \<Rightarrow> RoomConnection \<Rightarrow> RoomConnection \<Rightarrow> Heap \<times> BoundsMap
      \<Rightarrow> (Heap \<times> BoundsMap) option" where
  "secondaryStepS movedRoomId rooms connection secondary st =
     (if roomId secondary = movedRoomId then Some st
      else
        (case find (\<lambda>r. room_id (o_fields r) = roomId secondary) rooms of
           None \<Rightarrow> Some st
         | Some secondaryRoom \<Rightarrow>
             if isLocked (o_fields secondaryRoom) then Some st
             else
               (case map_of (snd st) (roomId connection) of
                  None \<Rightarrow> None
                | Some parentBounds \<Rightarrow>
                    (case map_of (snd st) (roomId secondary) of
                       None \<Rightarrow> None
                     | Some currentBounds \<Rightarrow>
                         let fresh = alloc (springPull (3 / 10) (fst st ! parentBounds) (fst st ! currentBounds)
                                              (roomAt (fst st) secondaryRoom) secondary) (fst st)
                         in Some (snd fresh, mapSet (roomId secondary) (fst fresh) (snd st))))))"

definition secondaryPassS ::
    "string \<Rightarrow> RoomObj list \<Rightarrow> (string \<rightharpoonup> RoomConnection list) \<Rightarrow> RoomConnection
      \<Rightarrow> Heap \<times> BoundsMap \<Rightarrow> (Heap \<times> BoundsMap) option" where
  "secondaryPassS movedRoomId rooms originalGraph connection st =
     (let secondaryConnections =
            (case originalGraph (roomId connection) of None \<Rightarrow> [] | Some cs \<Rightarrow> cs)
      in foldM (secondaryStepS movedRoomId rooms connection) secondaryConnections st)"

function settleS ::
    "string \<Rightarrow> RoomObj list \<Rightarrow> (string \<rightharpoonup> RoomConnection list) \<Rightarrow> RoomConnection list
      \<Rightarrow> real \<Rightarrow> nat \<Rightarrow> Heap \<times> BoundsMap \<Rightarrow> (Heap \<times> BoundsMap) option" where
  "settleS movedRoomId rooms originalGraph directConnections iterations iter st =
     (if real iter < iterations then
        (case foldM (attractStepS movedRoomId rooms) directConnections st of
           None \<Rightarrow> None
         | Some st1 \<Rightarrow>
             (case foldM (repelStepS movedRoomId rooms) rooms st1 of
                None \<Rightarrow> None
              | Some st2 \<Rightarrow>
                  (case (if iter < 3
                         then foldM (secondaryPassS movedRoomId rooms originalGraph) directConnections st2
                         else Some st2) of
                     None \<Rightarrow> None
                   | Some st3 \<Rightarrow>
                       settleS movedRoomId rooms originalGraph directConnections iterations (iter + 1) st3)))
      else Some st)"
  by pat_completeness auto
termination
proof (relation "measure (\<lambda>(m, rs, g, dc, iterations, iter, st). nat \<lceil>iterations\<rceil> - iter)")
  show "wf (measure (\<lambda>(m, rs, g, dc, iterations, iter, st). nat \<lceil>iterations :: real\<rceil> - iter))"
    by simp
next
  fix iterations :: real and iter :: nat
  assume "real iter < iterations"
  then have "int iter < \<lceil>iterations\<rceil>"
    by (simp add: less_ceiling_iff)
  then show "\<And>m rs g dc st st'. ((m, rs, g, dc, iterations, iter + 1, st'), (m, rs, g, dc, iterations, iter, st))
        \<in> measure (\<lambda>(m, rs, g, dc, iterations, iter, st). nat \<lceil>iterations\<rceil> - iter)"
    by simp
qed

declare settleS.simps [simp del]

text \<open>\<^verbatim>\<open>snapBoundsToGrid\<close> hands back its argument itself when snapping is off, and a new
  object otherwise.  The two assignments \<^verbatim>\<open>snapped.x = ...\<close> and \<^verbatim>\<open>snapped.y = ...\<close>
  write to whatever object that is.\<close>

definition snapBoundsToGridS :: "EditorConsts \<Rightarrow> nat \<Rightarrow> GridConfig \<Rightarrow> Heap \<Rightarrow> nat \<times> Heap" where
  "snapBoundsToGridS K bnds grid h =
     (if \<not> snapEnabled grid then (bnds, h)
      else alloc (snapBoundsToGrid K (h ! bnds) grid) h)"

definition keepWithinCanvasS :: "EditorConsts \<Rightarrow> nat \<Rightarrow> Heap \<Rightarrow> Heap" where
  "keepWithinCanvasS K snapped h = h[snapped := keepWithinCanvas K (h ! snapped)]"

definition snapEntryS ::
    "EditorConsts \<Rightarrow> GridConfig \<Rightarrow> string \<times> nat \<Rightarrow> Heap \<times> BoundsMap \<Rightarrow> Heap \<times> BoundsMap" where
  "snapEntryS K grid entry st =
     (let snapped = snapBoundsToGridS K (snd entry) grid (fst st);
          h = keepWithinCanvasS K (fst snapped) (snd snapped)
      in (h, mapSet (fst entry) (fst snapped) (snd st)))"

definition snapAllS :: "EditorConsts \<Rightarrow> GridConfig \<Rightarrow> Heap \<times> BoundsMap \<Rightarrow> Heap \<times> BoundsMap" where
  "snapAllS K grid st = fold (snapEntryS K grid) (snd st) st"

definition cleanupInnerS ::
    "EditorConsts \<Rightarrow> GridConfig \<Rightarrow> RoomObj \<Rightarrow> nat \<Rightarrow> RoomObj
      \<Rightarrow> (Heap \<times> BoundsMap) \<times> bool \<Rightarrow> ((Heap \<times> BoundsMap) \<times> bool) option" where
  "cleanupInnerS K grid room bnds other st =
     (if room_id (o_fields other) = room_id (o_fields room) then Some st
      else
        (case map_of (snd (fst st)) (room_id (o_fields other)) of
           None \<Rightarrow> None
         | Some otherBounds \<Rightarrow>
             if boundsOverlap (fst (fst st) ! bnds) (fst (fst st) ! otherBounds)
             then
               let newBounds = alloc (cleanupShift grid (fst (fst st) ! bnds) (fst (fst st) ! otherBounds))
                                     (fst (fst st));
                   snapped = snapBoundsToGridS K (fst newBounds) grid (snd newBounds);
                   h = keepWithinCanvasS K (fst snapped) (snd snapped)
               in Some ((h, mapSet (room_id (o_fields room)) (fst snapped) (snd (fst st))), True)
             else Some st))"

definition cleanupRoomS ::
    "EditorConsts \<Rightarrow> GridConfig \<Rightarrow> string \<Rightarrow> RoomObj list \<Rightarrow> RoomObj
      \<Rightarrow> (Heap \<times> BoundsMap) \<times> bool \<Rightarrow> ((Heap \<times> BoundsMap) \<times> bool) option" where
  "cleanupRoomS K grid movedRoomId rooms room st =
     (if room_id (o_fields room) = movedRoomId then Some st
      else if isLocked (o_fields room) then Some st
      else
        (case map_of (snd (fst st)) (room_id (o_fields room)) of
           None \<Rightarrow> None
         | Some bnds \<Rightarrow> foldM (cleanupInnerS K grid room bnds) rooms st))"

function cleanupLoopS ::
    "EditorConsts \<Rightarrow> GridConfig \<Rightarrow> string \<Rightarrow> RoomObj list \<Rightarrow> Heap \<times> BoundsMap \<Rightarrow> bool \<Rightarrow> nat
      \<Rightarrow> (Heap \<times> BoundsMap) option" where
  "cleanupLoopS K grid movedRoomId rooms st hasOverlap safetyCounter =
     (if hasOverlap \<and> safetyCounter < 10 then
        (case foldM (cleanupRoomS K grid movedRoomId rooms) rooms (st, False) of
           None \<Rightarrow> None
         | Some res \<Rightarrow> cleanupLoopS K grid movedRoomId rooms (fst res) (snd res) (safetyCounter + 1))
      else Some st)"
  by pat_completeness auto
termination
  by (relation "measure (\<lambda>(K, grid, m, rs, st, h, safetyCounter). 10 - safetyCounter)") auto

declare cleanupLoopS.simps [simp del]

text \<open>The final \<^verbatim>\<open>rooms.map\<close>: an unchanged room is the same room object with the same box
  object; a changed room is a new room object that points to the working box.\<close>

fun applyUpdatesS :: "EditorConsts \<Rightarrow> Heap \<Rightarrow> BoundsMap \<Rightarrow> RoomObj list \<Rightarrow> RoomObj list option" where
  "applyUpdatesS K h wb [] = Some []"
| "applyUpdatesS K h wb (room # rest) =
     (case map_of wb (room_id (o_fields room)) of
        None \<Rightarrow> None
      | Some newRoomBounds \<Rightarrow>
          (case applyUpdatesS K h wb rest of
             None \<Rightarrow> None
           | Some rest' \<Rightarrow>
               Some ((if b_x (h ! newRoomBounds) = b_x (h ! o_bounds room) \<and>
                         b_y (h ! newRoomBounds) = b_y (h ! o_bounds room) \<and>
                         b_width (h ! newRoomBounds) = b_width (h ! o_bounds room) \<and>
                         b_height (h ! newRoomBounds) = b_height (h ! o_bounds room)
                      then room
                      else \<lparr>o_fields = updateRoom K (h ! newRoomBounds) (roomAt h room),
                            o_bounds = newRoomBounds\<rparr>) # rest')))"

text \<open>The whole function: the caller passes the reference \<open>newBounds\<close> and the store, and
  gets back the new room list and the store as the call leaves it.\<close>

definition applySpringNetworkS ::
    "EditorConsts \<Rightarrow> string \<Rightarrow> nat \<Rightarrow> RoomObj list \<Rightarrow> GridConfig \<Rightarrow> real \<Rightarrow> Heap
      \<Rightarrow> (RoomObj list \<times> Heap) option" where
  "applySpringNetworkS K movedRoomId newBounds rooms grid iterations h =
     (let originalGraph = buildConnectivityGraph (map (roomAt h) rooms);
          copied = copyBoundsS rooms (h, []);
          workingBounds = (fst copied, mapSet movedRoomId newBounds (snd copied));
          directConnections = (case originalGraph movedRoomId of None \<Rightarrow> [] | Some cs \<Rightarrow> cs)
      in case settleS movedRoomId rooms originalGraph directConnections iterations 0 workingBounds of
           None \<Rightarrow> None
         | Some settledSt \<Rightarrow>
             (case cleanupLoopS K grid movedRoomId rooms (snapAllS K grid settledSt) True 0 of
                None \<Rightarrow> None
              | Some fin \<Rightarrow>
                  (case applyUpdatesS K (fst fin) (snd fin) rooms of
                     None \<Rightarrow> None
                   | Some result \<Rightarrow> Some (result, fst fin))))"

text \<open>
  \<^verbatim>\<open>findNonOverlappingPosition\<close> over the store.  It starts from a copy of
  \<^verbatim>\<open>desiredBounds\<close>.  One round of its outer loop looks for the first room with another
  id whose box overlaps the current box; if there is one, the current object is pushed
  in place, snapped (which may replace it by a new object), kept within the canvas,
  and the inner loop is left.  \<open>None\<close> means that no room overlaps.
\<close>

definition nudgeShift :: "BoundingBox \<Rightarrow> BoundingBox \<Rightarrow> BoundingBox" where
  "nudgeShift currentBounds otherBounds =
     (let centerA = getBoundsCenter currentBounds;
          centerB = getBoundsCenter otherBounds;
          overlapX = overlapAlongX currentBounds otherBounds;
          overlapY = overlapAlongY currentBounds otherBounds
      in if overlapX < overlapY
         then currentBounds\<lparr>b_x := b_x currentBounds +
                (if p_x centerA > p_x centerB then 1 else - 1) * (overlapX + 2)\<rparr>
         else currentBounds\<lparr>b_y := b_y currentBounds +
                (if p_y centerA > p_y centerB then 1 else - 1) * (overlapY + 2)\<rparr>)"

definition nudgeS ::
    "EditorConsts \<Rightarrow> GridConfig \<Rightarrow> RoomObj \<Rightarrow> RoomObj list \<Rightarrow> nat \<times> Heap \<Rightarrow> (nat \<times> Heap) option" where
  "nudgeS K grid room allRooms st =
     (case find (\<lambda>other. room_id (o_fields other) \<noteq> room_id (o_fields room) \<and>
                          boundsOverlap (snd st ! fst st) (snd st ! o_bounds other)) allRooms of
        None \<Rightarrow> None
      | Some other \<Rightarrow>
          let h1 = (snd st)[fst st := nudgeShift (snd st ! fst st) (snd st ! o_bounds other)];
              snapped = snapBoundsToGridS K (fst st) grid h1
          in Some (fst snapped, keepWithinCanvasS K (fst snapped) (snd snapped)))"

function nudgeLoopS ::
    "EditorConsts \<Rightarrow> GridConfig \<Rightarrow> RoomObj \<Rightarrow> RoomObj list \<Rightarrow> real \<Rightarrow> nat \<Rightarrow> nat \<times> Heap
      \<Rightarrow> nat \<times> Heap" where
  "nudgeLoopS K grid room allRooms maxIterations i st =
     (if real i < maxIterations then
        (case nudgeS K grid room allRooms st of
           None \<Rightarrow> st
         | Some st' \<Rightarrow> nudgeLoopS K grid room allRooms maxIterations (i + 1) st')
      else st)"
  by pat_completeness auto
termination
proof (relation "measure (\<lambda>(K, grid, room, rs, maxIterations, i, st). nat \<lceil>maxIterations\<rceil> - i)")
  show "wf (measure (\<lambda>(K, grid, room, rs, maxIterations, i, st). nat \<lceil>maxIterations :: real\<rceil> - i))"
    by simp
next
  fix maxIterations :: real and i :: nat
  assume "real i < maxIterations"
  then have "int i < \<lceil>maxIterations\<rceil>"
    by (simp add: less_ceiling_iff)
  then show "\<And>K grid room rs st st'.
        ((K, grid, room, rs, maxIterations, i + 1, st'), (K, grid, room, rs, maxIterations, i, st))
        \<in> measure (\<lambda>(K, grid, room, rs, maxIterations, i, st). nat \<lceil>maxIterations\<rceil> - i)"
    by simp
qed

declare nudgeLoopS.simps [simp del]

definition findNonOverlappingPositionS ::
    "EditorConsts \<Rightarrow> RoomObj \<Rightarrow> nat \<Rightarrow> RoomObj list \<Rightarrow> GridConfig \<Rightarrow> real \<Rightarrow> Heap \<Rightarrow> nat \<times> Heap" where
  "findNonOverlappingPositionS K room desiredBounds allRooms grid maxIterations h =
     nudgeLoopS K grid room allRooms maxIterations 0 (alloc (h ! desiredBounds) h)"

section \<open>Notions the specification speaks of\<close>

text \<open>A point lies in the interior of a box when it is strictly inside on both axes.\<close>

definition inInterior :: "Point \<Rightarrow> BoundingBox \<Rightarrow> bool" where
  "inInterior p b \<longleftrightarrow>
     b_x b < p_x p \<and> p_x p < b_x b + b_width b \<and> b_y b < p_y p \<and> p_y p < b_y b + b_height b"

definition interiorsIntersect :: "BoundingBox \<Rightarrow> BoundingBox \<Rightarrow> bool" where
  "interiorsIntersect a b \<longleftrightarrow> (\<exists>p. inInterior p a \<and> inInterior p b)"

definition isMultipleOf :: "real \<Rightarrow> real \<Rightarrow> bool" where
  "isMultipleOf v s \<longleftrightarrow> (\<exists>k::int. v = real_of_int k * s)"

text \<open>
  Bookkeeping for the solver proofs.  \<open>solverKeys\<close> are the keys the working map must
  hold; \<open>frozenKeys\<close> are the keys no pass may write: the moved room's id and every id
  carried by locked rooms only.  \<open>keeps D F w0 wb\<close> says that \<open>wb\<close> holds the keys \<open>D\<close>
  and agrees with \<open>w0\<close> on \<open>F\<close>.
\<close>

definition solverKeys :: "string \<Rightarrow> EditorRoom list \<Rightarrow> string set" where
  "solverKeys movedRoomId rooms = insert movedRoomId (room_id ` set rooms)"

definition frozenKeys :: "string \<Rightarrow> EditorRoom list \<Rightarrow> string set" where
  "frozenKeys movedRoomId rooms =
     {k. k = movedRoomId \<or> (\<forall>r \<in> set rooms. room_id r = k \<longrightarrow> isLocked r)}"

definition keeps :: "string set \<Rightarrow> string set \<Rightarrow> WorkingBounds \<Rightarrow> WorkingBounds \<Rightarrow> bool" where
  "keeps D F w0 wb \<longleftrightarrow> D \<subseteq> dom wb \<and> (\<forall>k \<in> F. wb k = w0 k)"

text \<open>A room with the given id, box and lock flag, and fixed values in the fields the
  solver does not read; used for concrete inputs.\<close>

definition plainRoom :: "string \<Rightarrow> BoundingBox \<Rightarrow> bool \<Rightarrow> EditorRoom" where
  "plainRoom i b l =
     \<lparr>room_id = i, roomType = ''room'', displayName = ''Room'', points = boundsToPoints b,
      bounds = b, fillColor = ''#e5e7eb'', trainingColor = ''#e5e7eb'',
      areaSqft = pixelsToSqft (b_width b * b_height b) 768,
      widthInches = pixelsToInches (b_width b) 768,
      heightInches = pixelsToInches (b_height b) 768,
      estimatedSize = ''M'', isSelected = False, isHovered = False, isLocked = l\<rparr>"

text \<open>\<open>settled\<close>: no room that the cleanup loop may push overlaps a room with another id.\<close>

definition settled :: "string \<Rightarrow> EditorRoom list \<Rightarrow> WorkingBounds \<Rightarrow> bool" where
  "settled movedRoomId rooms wb \<longleftrightarrow>
     (\<forall>room \<in> set rooms. room_id room \<noteq> movedRoomId \<and> \<not> isLocked room \<longrightarrow>
        (\<forall>other \<in> set rooms. room_id other \<noteq> room_id room \<longrightarrow>
           (\<exists>b ob. wb (room_id room) = Some b \<and> wb (room_id other) = Some ob \<and>
                    \<not> boundsOverlap b ob)))"

text \<open>Concrete values for examples: a box from its four numbers, the constants with the
  minimum room size 20 of the specification, and a grid of pitch 10.\<close>

definition box :: "real \<Rightarrow> real \<Rightarrow> real \<Rightarrow> real \<Rightarrow> BoundingBox" where
  "box x y w h = \<lparr>b_x = x, b_y = y, b_width = w, b_height = h\<rparr>"

definition exampleConsts :: EditorConsts where
  "exampleConsts = \<lparr>MIN_ROOM_SIZE = 20, CANVAS_SIZE = 768\<rparr>"

definition grid10 :: "bool \<Rightarrow> GridConfig" where
  "grid10 snap = \<lparr>g_size = 10, snapEnabled = snap, visible = True\<rparr>"

text \<open>
  Bookkeeping for the store: \<open>framed P h0 h\<close> says that the store \<open>h\<close> extends \<open>h0\<close> and
  that every object of \<open>h0\<close> whose reference satisfies \<open>P\<close> is as it was;
  \<open>refsFresh n nb wb\<close> says that every reference in the working map is either the
  caller's \<open>nb\<close> or was allocated beyond the first \<open>n\<close> objects.
\<close>

definition framed :: "(nat \<Rightarrow> bool) \<Rightarrow> Heap \<Rightarrow> Heap \<Rightarrow> bool" where
  "framed P h0 h \<longleftrightarrow> length h0 \<le> length h \<and> (\<forall>a < length h0. P a \<longrightarrow> h ! a = h0 ! a)"

definition refsFresh :: "nat \<Rightarrow> nat \<Rightarrow> BoundsMap \<Rightarrow> bool" where
  "refsFresh n nb wb \<longleftrightarrow> (\<forall>e \<in> set wb. n \<le> snd e \<or> snd e = nb)"

definition storeInv :: "(nat \<Rightarrow> bool) \<Rightarrow> Heap \<Rightarrow> nat \<Rightarrow> Heap \<times> BoundsMap \<Rightarrow> bool" where
  "storeInv P h0 nb st \<longleftrightarrow> framed P h0 (fst st) \<and> refsFresh (length h0) nb (snd st)"

text \<open>
  For comparing the two models: \<open>storeView\<close> reads a store state as a working map of
  values; \<open>simInv\<close> adds to \<open>storeInv\<close> that the references of the working map are
  within the store and that no key and no reference occurs twice.
\<close>

definition storeView :: "Heap \<times> BoundsMap \<Rightarrow> WorkingBounds" where
  "storeView st = boundsView (fst st) (snd st)"

definition simInv :: "(nat \<Rightarrow> bool) \<Rightarrow> Heap \<Rightarrow> nat \<Rightarrow> Heap \<times> BoundsMap \<Rightarrow> bool" where
  "simInv P h0 nb st \<longleftrightarrow>
     storeInv P h0 nb st \<and> (\<forall>e \<in> set (snd st). snd e < length (fst st)) \<and>
     distinct (map fst (snd st)) \<and> distinct (map snd (snd st))"

definition cleanupView :: "(Heap \<times> BoundsMap) \<times> bool \<Rightarrow> WorkingBounds \<times> bool" where
  "cleanupView s = (storeView (fst s), snd s)"

section \<open>Geometry kernel, grid snapper and unit converter\<close>

subsection \<open>Overlap excludes adjacency\<close>

text \<open>
  Claim C5.  For all bounding boxes \<open>a\<close> and \<open>b\<close> and every tolerance \<open>t\<close>: when
  \<open>boundsOverlap a b\<close> holds, \<open>boundsAdjacent a b t\<close> is false.  The function tests the
  overlap first and returns false at once.
\<close>

theorem overlap_excludes_adjacent:
  "boundsOverlap a b \<Longrightarrow> \<not> boundsAdjacent a b t"
  by (simp add: boundsAdjacent_def)

theorem overlap_excludes_adjacent_witness:
  "boundsOverlap \<lparr>b_x = 0, b_y = 0, b_width = 40, b_height = 40\<rparr>
                 \<lparr>b_x = 30, b_y = 10, b_width = 40, b_height = 40\<rparr> \<and>
   \<not> boundsAdjacent \<lparr>b_x = 0, b_y = 0, b_width = 40, b_height = 40\<rparr>
                     \<lparr>b_x = 30, b_y = 10, b_width = 40, b_height = 40\<rparr> 5"
proof -
  have ov: "boundsOverlap \<lparr>b_x = 0, b_y = 0, b_width = 40, b_height = 40\<rparr>
                          \<lparr>b_x = 30, b_y = 10, b_width = 40, b_height = 40\<rparr>"
    by (simp add: boundsOverlap_def)
  from overlap_excludes_adjacent [OF ov, of 5] ov show ?thesis by simp
qed

subsection \<open>Unit round trip\<close>



subsection \<open>Snapping a box to the grid\<close>

lemma isMultipleOf_snapToGrid: "isMultipleOf (snapToGrid v s) s"
  unfolding isMultipleOf_def snapToGrid_def by blast

lemma isMultipleOf_add:
  assumes "isMultipleOf v s" and "isMultipleOf w s"
  shows "isMultipleOf (v + w) s"
proof -
  from assms obtain k l :: int where "v = real_of_int k * s" and "w = real_of_int l * s"
    unfolding isMultipleOf_def by blast
  then have "v + w = real_of_int (k + l) * s"
    by (simp add: algebra_simps)
  then show ?thesis
    unfolding isMultipleOf_def by blast
qed

lemma twenty_not_multiple_of_fifteen: "\<not> isMultipleOf 20 15"
  unfolding isMultipleOf_def
proof
  assume "\<exists>k::int. (20::real) = real_of_int k * 15"
  then obtain k :: int where "(20::real) = real_of_int k * 15"
    by blast
  then have "real_of_int (k * 15) = real_of_int 20"
    by simp
  then have "k * 15 = 20"
    by (simp only: of_int_eq_iff)
  then show False
    by presburger
qed

text \<open>
  Claim C7 as written: with snapping enabled all four corner coordinates of the result
  are integer multiples of the grid size.  On a grid of pitch 15 a box of 15 by 15 is
  widened to the minimum room size 20, so its right edge lands on 20, which is no
  multiple of 15.
\<close>

theorem snapBoundsToGrid_corner_counterexample:
  "snapEnabled \<lparr>g_size = 15, snapEnabled = True, visible = True\<rparr> \<and>
   \<not> isMultipleOf
       (b_x (snapBoundsToGrid \<lparr>MIN_ROOM_SIZE = 20, CANVAS_SIZE = 768\<rparr>
              \<lparr>b_x = 0, b_y = 0, b_width = 15, b_height = 15\<rparr>
              \<lparr>g_size = 15, snapEnabled = True, visible = True\<rparr>) +
        b_width (snapBoundsToGrid \<lparr>MIN_ROOM_SIZE = 20, CANVAS_SIZE = 768\<rparr>
              \<lparr>b_x = 0, b_y = 0, b_width = 15, b_height = 15\<rparr>
              \<lparr>g_size = 15, snapEnabled = True, visible = True\<rparr>))
       (g_size \<lparr>g_size = 15, snapEnabled = True, visible = True\<rparr>)"
  using twenty_not_multiple_of_fifteen
  by (simp add: snapBoundsToGrid_def snapToGrid_def)

text \<open>
  The failure does not hinge on the value 20: whatever positive minimum room size the
  constant has, a grid of twice that pitch leaves the right edge of the empty box at
  the origin off the grid.
\<close>

lemma snapBoundsToGrid_corner_off_grid:
  assumes "0 < MIN_ROOM_SIZE K"
  shows "\<not> isMultipleOf
           (b_x (snapBoundsToGrid K \<lparr>b_x = 0, b_y = 0, b_width = 0, b_height = 0\<rparr>
                  \<lparr>g_size = 2 * MIN_ROOM_SIZE K, snapEnabled = True, visible = True\<rparr>) +
            b_width (snapBoundsToGrid K \<lparr>b_x = 0, b_y = 0, b_width = 0, b_height = 0\<rparr>
                  \<lparr>g_size = 2 * MIN_ROOM_SIZE K, snapEnabled = True, visible = True\<rparr>))
           (2 * MIN_ROOM_SIZE K)"
proof
  assume "isMultipleOf
           (b_x (snapBoundsToGrid K \<lparr>b_x = 0, b_y = 0, b_width = 0, b_height = 0\<rparr>
                  \<lparr>g_size = 2 * MIN_ROOM_SIZE K, snapEnabled = True, visible = True\<rparr>) +
            b_width (snapBoundsToGrid K \<lparr>b_x = 0, b_y = 0, b_width = 0, b_height = 0\<rparr>
                  \<lparr>g_size = 2 * MIN_ROOM_SIZE K, snapEnabled = True, visible = True\<rparr>))
           (2 * MIN_ROOM_SIZE K)"
  then have "isMultipleOf (MIN_ROOM_SIZE K) (2 * MIN_ROOM_SIZE K)"
    using assms by (simp add: snapBoundsToGrid_def snapToGrid_def max_def)
  then obtain k :: int where "MIN_ROOM_SIZE K = real_of_int k * (2 * MIN_ROOM_SIZE K)"
    unfolding isMultipleOf_def by blast
  then have "real_of_int (2 * k) = real_of_int 1"
    using assms by simp
  then have "2 * k = 1"
    by (simp only: of_int_eq_iff)
  then show False
    by presburger
qed

text \<open>
  Claim C7, amended.  For a grid of positive pitch with snapping enabled, the result has
  its left and top coordinates on the grid and a width and height of at least
  \<open>MIN_ROOM_SIZE\<close>; its right and bottom edges are on the grid whenever
  \<open>MIN_ROOM_SIZE\<close> is itself a multiple of the pitch, and also whenever the snapped
  extent on that axis already reaches \<open>MIN_ROOM_SIZE\<close>.  With snapping disabled the box
  is returned as it is.
\<close>

theorem snapBoundsToGrid_on_grid:
  assumes "0 < g_size g"
  shows "(snapEnabled g \<longrightarrow>
           isMultipleOf (b_x (snapBoundsToGrid K b g)) (g_size g) \<and>
           isMultipleOf (b_y (snapBoundsToGrid K b g)) (g_size g) \<and>
           MIN_ROOM_SIZE K \<le> b_width (snapBoundsToGrid K b g) \<and>
           MIN_ROOM_SIZE K \<le> b_height (snapBoundsToGrid K b g) \<and>
           (isMultipleOf (MIN_ROOM_SIZE K) (g_size g) \<or>
            MIN_ROOM_SIZE K \<le> snapToGrid (b_x b + b_width b) (g_size g) - snapToGrid (b_x b) (g_size g)
              \<longrightarrow> isMultipleOf (b_x (snapBoundsToGrid K b g) + b_width (snapBoundsToGrid K b g)) (g_size g)) \<and>
           (isMultipleOf (MIN_ROOM_SIZE K) (g_size g) \<or>
            MIN_ROOM_SIZE K \<le> snapToGrid (b_y b + b_height b) (g_size g) - snapToGrid (b_y b) (g_size g)
              \<longrightarrow> isMultipleOf (b_y (snapBoundsToGrid K b g) + b_height (snapBoundsToGrid K b g)) (g_size g))) \<and>
         (\<not> snapEnabled g \<longrightarrow> snapBoundsToGrid K b g = b)"
proof -
  have edge: "isMultipleOf (lo + max m (hi - lo)) s"
    if "isMultipleOf lo s" and "isMultipleOf hi s" and "isMultipleOf m s \<or> m \<le> hi - lo"
    for lo hi m s :: real
  proof (cases "m \<le> hi - lo")
    case True
    then have "lo + max m (hi - lo) = hi"
      by (simp add: max_def)
    with that(2) show ?thesis
      by simp
  next
    case False
    then have "lo + max m (hi - lo) = lo + m" and "isMultipleOf m s"
      using that(3) by (simp_all add: max_def)
    with that(1) show ?thesis
      by (simp add: isMultipleOf_add)
  qed
  show ?thesis
    by (simp add: snapBoundsToGrid_def Let_def isMultipleOf_snapToGrid edge)
qed

subsection \<open>Overlap and interiors\<close>

text \<open>
  Claim C8 as written: for all boxes, \<open>boundsOverlap\<close> holds exactly when the interiors
  intersect.  A box of width zero has no interior, yet the comparison of edges reports an
  overlap when such a box lies inside another one.
\<close>

theorem boundsOverlap_interiors_counterexample:
  "boundsOverlap \<lparr>b_x = 5, b_y = 5, b_width = 0, b_height = 10\<rparr>
                 \<lparr>b_x = 0, b_y = 0, b_width = 20, b_height = 20\<rparr> \<and>
   \<not> interiorsIntersect \<lparr>b_x = 5, b_y = 5, b_width = 0, b_height = 10\<rparr>
                         \<lparr>b_x = 0, b_y = 0, b_width = 20, b_height = 20\<rparr>"
  by (simp add: boundsOverlap_def interiorsIntersect_def inInterior_def)

text \<open>
  Claim C8, amended.  For all boxes of positive width and height, \<open>boundsOverlap\<close> holds
  exactly when the interiors of the two boxes intersect; and for all boxes whatsoever, a
  box that ends exactly where the other begins (on either axis, in either order) does
  not overlap it.
\<close>

theorem boundsOverlap_iff_interiors:
  assumes "0 < b_width a" and "0 < b_height a" and "0 < b_width b" and "0 < b_height b"
  shows "(boundsOverlap a b \<longleftrightarrow> interiorsIntersect a b) \<and>
         (\<forall>c d. b_x c + b_width c = b_x d \<or> b_x d + b_width d = b_x c \<or>
                b_y c + b_height c = b_y d \<or> b_y d + b_height d = b_y c
            \<longrightarrow> \<not> boundsOverlap c d)"
proof (intro conjI allI impI)
  show "boundsOverlap a b \<longleftrightarrow> interiorsIntersect a b"
  proof
    assume ov: "boundsOverlap a b"
    define p where
      "p = \<lparr>p_x = (max (b_x a) (b_x b) + min (b_x a + b_width a) (b_x b + b_width b)) / 2,
            p_y = (max (b_y a) (b_y b) + min (b_y a + b_height a) (b_y b + b_height b)) / 2\<rparr>"
    have "inInterior p a \<and> inInterior p b"
      using ov assms unfolding boundsOverlap_def inInterior_def p_def
      by (auto simp: max_def min_def)
    then show "interiorsIntersect a b"
      unfolding interiorsIntersect_def by blast
  next
    assume "interiorsIntersect a b"
    then obtain p where "inInterior p a" and "inInterior p b"
      unfolding interiorsIntersect_def by blast
    then show "boundsOverlap a b"
      unfolding boundsOverlap_def inInterior_def by linarith
  qed
next
  fix c d :: BoundingBox
  assume "b_x c + b_width c = b_x d \<or> b_x d + b_width d = b_x c \<or>
          b_y c + b_height c = b_y d \<or> b_y d + b_height d = b_y c"
  then show "\<not> boundsOverlap c d"
    unfolding boundsOverlap_def by auto
qed

theorem boundsOverlap_iff_interiors_witness:
  "boundsOverlap \<lparr>b_x = 0, b_y = 0, b_width = 40, b_height = 40\<rparr>
                 \<lparr>b_x = 30, b_y = 10, b_width = 40, b_height = 40\<rparr> \<and>
   interiorsIntersect \<lparr>b_x = 0, b_y = 0, b_width = 40, b_height = 40\<rparr>
                      \<lparr>b_x = 30, b_y = 10, b_width = 40, b_height = 40\<rparr> \<and>
   \<not> boundsOverlap \<lparr>b_x = 0, b_y = 0, b_width = 40, b_height = 40\<rparr>
                   \<lparr>b_x = 40, b_y = 0, b_width = 40, b_height = 40\<rparr>"
proof -
  have ov: "boundsOverlap \<lparr>b_x = 0, b_y = 0, b_width = 40, b_height = 40\<rparr>
                          \<lparr>b_x = 30, b_y = 10, b_width = 40, b_height = 40\<rparr>"
    by (simp add: boundsOverlap_def)
  note inst = boundsOverlap_iff_interiors
               [of "\<lparr>b_x = 0, b_y = 0, b_width = 40, b_height = 40\<rparr>"
                   "\<lparr>b_x = 30, b_y = 10, b_width = 40, b_height = 40\<rparr>"]
  have pos: "(0::real) < 40"
    by simp
  from inst have both:
    "(boundsOverlap \<lparr>b_x = 0, b_y = 0, b_width = 40, b_height = 40\<rparr>
                    \<lparr>b_x = 30, b_y = 10, b_width = 40, b_height = 40\<rparr> \<longleftrightarrow>
      interiorsIntersect \<lparr>b_x = 0, b_y = 0, b_width = 40, b_height = 40\<rparr>
                         \<lparr>b_x = 30, b_y = 10, b_width = 40, b_height = 40\<rparr>) \<and>
     (\<forall>c d. b_x c + b_width c = b_x d \<or> b_x d + b_width d = b_x c \<or>
            b_y c + b_height c = b_y d \<or> b_y d + b_height d = b_y c
        \<longrightarrow> \<not> boundsOverlap c d)"
    using pos by simp
  then have "interiorsIntersect \<lparr>b_x = 0, b_y = 0, b_width = 40, b_height = 40\<rparr>
                                \<lparr>b_x = 30, b_y = 10, b_width = 40, b_height = 40\<rparr>"
    using ov by blast
  moreover have "\<not> boundsOverlap \<lparr>b_x = 0, b_y = 0, b_width = 40, b_height = 40\<rparr>
                                 \<lparr>b_x = 40, b_y = 0, b_width = 40, b_height = 40\<rparr>"
  proof -
    from both have "b_x \<lparr>b_x = 0, b_y = 0, b_width = 40, b_height = 40\<rparr> +
                    b_width \<lparr>b_x = 0, b_y = 0, b_width = 40, b_height = 40\<rparr> =
                    b_x \<lparr>b_x = 40, b_y = 0, b_width = 40, b_height = 40\<rparr>
                    \<longrightarrow> \<not> boundsOverlap \<lparr>b_x = 0, b_y = 0, b_width = 40, b_height = 40\<rparr>
                                       \<lparr>b_x = 40, b_y = 0, b_width = 40, b_height = 40\<rparr>"
      by blast
    then show ?thesis
      by simp
  qed
  ultimately show ?thesis
    using ov by simp
qed

subsection \<open>Box to corners and back\<close>



subsection \<open>Witness for the snapping theorem\<close>

theorem snapBoundsToGrid_on_grid_witness:
  "(0::real) < 10 \<and>
   snapBoundsToGrid \<lparr>MIN_ROOM_SIZE = 20, CANVAS_SIZE = 768\<rparr>
       \<lparr>b_x = 13, b_y = 26, b_width = 41, b_height = 8\<rparr>
       \<lparr>g_size = 10, snapEnabled = True, visible = True\<rparr> =
     \<lparr>b_x = 10, b_y = 30, b_width = 40, b_height = 20\<rparr> \<and>
   isMultipleOf (10 + 40) 10 \<and> isMultipleOf (30 + 20) 10 \<and>
   snapBoundsToGrid \<lparr>MIN_ROOM_SIZE = 20, CANVAS_SIZE = 768\<rparr>
       \<lparr>b_x = 13, b_y = 26, b_width = 41, b_height = 8\<rparr>
       \<lparr>g_size = 10, snapEnabled = False, visible = True\<rparr> =
     \<lparr>b_x = 13, b_y = 26, b_width = 41, b_height = 8\<rparr>"
proof -
  have m: "isMultipleOf 20 10"
    unfolding isMultipleOf_def by (rule exI [of _ 2]) simp
  have v: "snapBoundsToGrid \<lparr>MIN_ROOM_SIZE = 20, CANVAS_SIZE = 768\<rparr>
       \<lparr>b_x = 13, b_y = 26, b_width = 41, b_height = 8\<rparr>
       \<lparr>g_size = 10, snapEnabled = True, visible = True\<rparr> =
     \<lparr>b_x = 10, b_y = 30, b_width = 40, b_height = 20\<rparr>"
    by (simp add: snapBoundsToGrid_def snapToGrid_def round_def)
  from m v
    snapBoundsToGrid_on_grid
      [of "\<lparr>g_size = 10, snapEnabled = True, visible = True\<rparr>"
          "\<lparr>MIN_ROOM_SIZE = 20, CANVAS_SIZE = 768\<rparr>"
          "\<lparr>b_x = 13, b_y = 26, b_width = 41, b_height = 8\<rparr>"]
    snapBoundsToGrid_on_grid
      [of "\<lparr>g_size = 10, snapEnabled = False, visible = True\<rparr>"
          "\<lparr>MIN_ROOM_SIZE = 20, CANVAS_SIZE = 768\<rparr>"
          "\<lparr>b_x = 13, b_y = 26, b_width = 41, b_height = 8\<rparr>"]
  show ?thesis
    by simp
qed

section \<open>The solver: what every pass preserves\<close>

text \<open>A fold over a list whose steps all succeed and preserve an invariant succeeds
  and preserves it.\<close>

lemma foldM_invariant:
  assumes "I s" and "\<And>x s. x \<in> set xs \<Longrightarrow> I s \<Longrightarrow> \<exists>s'. f x s = Some s' \<and> I s'"
  shows "\<exists>s'. foldM f xs s = Some s' \<and> I s'"
  using assms
proof (induction xs arbitrary: s)
  case Nil
  then show ?case by simp
next
  case (Cons x xs)
  from Cons.prems obtain s1 where s1: "f x s = Some s1" "I s1"
    by (meson list.set_intros(1))
  have "\<exists>s'. foldM f xs s1 = Some s' \<and> I s'"
    using Cons.IH [OF s1(2)] Cons.prems(2) by (meson list.set_intros(2))
  with s1 show ?case by simp
qed

lemma keeps_upd: "keeps D F w0 wb \<Longrightarrow> k \<notin> F \<Longrightarrow> keeps D F w0 (wb(k \<mapsto> v))"
  unfolding keeps_def by auto

lemma keeps_lookup: "keeps D F w0 wb \<Longrightarrow> k \<in> D \<Longrightarrow> \<exists>v. wb k = Some v"
  unfolding keeps_def by auto

lemma find_room: "find (\<lambda>r. room_id r = k) rooms = Some cr \<Longrightarrow> cr \<in> set rooms \<and> room_id cr = k"
  by (auto simp: find_Some_iff)

lemma unlocked_not_frozen:
  "cr \<in> set rooms \<Longrightarrow> \<not> isLocked cr \<Longrightarrow> room_id cr \<noteq> movedRoomId \<Longrightarrow> room_id cr \<notin> frozenKeys movedRoomId rooms"
  unfolding frozenKeys_def by auto

lemma room_in_keys: "cr \<in> set rooms \<Longrightarrow> room_id cr \<in> solverKeys movedRoomId rooms"
  unfolding solverKeys_def by auto

lemma moved_in_keys: "movedRoomId \<in> solverKeys movedRoomId rooms"
  unfolding solverKeys_def by auto

lemma attractStep_keeps:
  assumes "keeps (solverKeys movedRoomId rooms) (frozenKeys movedRoomId rooms) w0 wb"
    and "roomId connection \<noteq> movedRoomId"
  shows "\<exists>wb'. attractStep movedRoomId rooms connection wb = Some wb' \<and>
           keeps (solverKeys movedRoomId rooms) (frozenKeys movedRoomId rooms) w0 wb'"
proof (cases "find (\<lambda>r. room_id r = roomId connection) rooms")
  case None
  then show ?thesis using assms by (simp add: attractStep_def)
next
  case (Some cr)
  then have cr: "cr \<in> set rooms" "room_id cr = roomId connection"
    using find_room by blast+
  show ?thesis
  proof (cases "isLocked cr")
    case True
    then show ?thesis using Some assms by (simp add: attractStep_def)
  next
    case False
    obtain mb where mb: "wb movedRoomId = Some mb"
      using keeps_lookup [OF assms(1) moved_in_keys] by blast
    obtain cb where cb: "wb (roomId connection) = Some cb"
      using keeps_lookup [OF assms(1) room_in_keys [OF cr(1)]] cr(2) by auto
    have "roomId connection \<notin> frozenKeys movedRoomId rooms"
      using unlocked_not_frozen [OF cr(1) False] cr(2) assms(2) by simp
    then show ?thesis
      using Some False mb cb keeps_upd [OF assms(1)] by (simp add: attractStep_def)
  qed
qed

lemma repelAccum_total:
  assumes "wb (room_id other) \<noteq> None"
  shows "\<exists>adjust'. repelAccum wb room bnds other adjust = Some adjust'"
  using assms by (auto simp: repelAccum_def Let_def)

lemma repelStep_keeps:
  assumes "keeps (solverKeys movedRoomId rooms) (frozenKeys movedRoomId rooms) w0 wb"
    and "room \<in> set rooms"
  shows "\<exists>wb'. repelStep movedRoomId rooms room wb = Some wb' \<and>
           keeps (solverKeys movedRoomId rooms) (frozenKeys movedRoomId rooms) w0 wb'"
proof (cases "room_id room = movedRoomId \<or> isLocked room")
  case True
  then show ?thesis using assms by (auto simp: repelStep_def)
next
  case False
  obtain bnds where bnds: "wb (room_id room) = Some bnds"
    using keeps_lookup [OF assms(1) room_in_keys [OF assms(2)]] by blast
  have "\<exists>adjust. foldM (repelAccum wb room bnds) rooms (0, 0) = Some adjust \<and> True"
  proof (rule foldM_invariant)
    show True ..
  next
    fix other s
    assume "other \<in> set rooms"
    then have "wb (room_id other) \<noteq> None"
      using keeps_lookup [OF assms(1) room_in_keys] by fastforce
    then show "\<exists>s'. repelAccum wb room bnds other s = Some s' \<and> True"
      using repelAccum_total by simp
  qed
  then obtain adjust where adj: "foldM (repelAccum wb room bnds) rooms (0, 0) = Some adjust"
    by blast
  have "room_id room \<notin> frozenKeys movedRoomId rooms"
    using unlocked_not_frozen [OF assms(2)] False by simp
  then show ?thesis
    using False bnds adj keeps_upd [OF assms(1)] assms(1) by (simp add: repelStep_def)
qed

lemma secondaryStep_keeps:
  assumes "keeps (solverKeys movedRoomId rooms) (frozenKeys movedRoomId rooms) w0 wb"
    and "roomId connection \<in> solverKeys movedRoomId rooms"
  shows "\<exists>wb'. secondaryStep movedRoomId rooms connection secondary wb = Some wb' \<and>
           keeps (solverKeys movedRoomId rooms) (frozenKeys movedRoomId rooms) w0 wb'"
proof (cases "roomId secondary = movedRoomId")
  case True
  then show ?thesis using assms by (simp add: secondaryStep_def)
next
  case notMoved: False
  show ?thesis
  proof (cases "find (\<lambda>r. room_id r = roomId secondary) rooms")
    case None
    then show ?thesis using assms notMoved by (simp add: secondaryStep_def)
  next
    case (Some sr)
    then have sr: "sr \<in> set rooms" "room_id sr = roomId secondary"
      using find_room by blast+
    show ?thesis
    proof (cases "isLocked sr")
      case True
      then show ?thesis using Some assms notMoved by (simp add: secondaryStep_def)
    next
      case False
      obtain pb where pb: "wb (roomId connection) = Some pb"
        using keeps_lookup [OF assms(1) assms(2)] by blast
      obtain cb where cb: "wb (roomId secondary) = Some cb"
        using keeps_lookup [OF assms(1) room_in_keys [OF sr(1)]] sr(2) by auto
      have "roomId secondary \<notin> frozenKeys movedRoomId rooms"
        using unlocked_not_frozen [OF sr(1) False] sr(2) notMoved by simp
      then show ?thesis
        using Some False notMoved pb cb keeps_upd [OF assms(1)] by (simp add: secondaryStep_def)
    qed
  qed
qed

lemma secondaryPass_keeps:
  assumes "keeps (solverKeys movedRoomId rooms) (frozenKeys movedRoomId rooms) w0 wb"
    and "roomId connection \<in> solverKeys movedRoomId rooms"
  shows "\<exists>wb'. secondaryPass movedRoomId rooms originalGraph connection wb = Some wb' \<and>
           keeps (solverKeys movedRoomId rooms) (frozenKeys movedRoomId rooms) w0 wb'"
  unfolding secondaryPass_def Let_def
  using foldM_invariant
          [of "keeps (solverKeys movedRoomId rooms) (frozenKeys movedRoomId rooms) w0" wb _
              "secondaryStep movedRoomId rooms connection"]
        secondaryStep_keeps [OF _ assms(2)] assms(1)
  by blast

lemma settle_keeps:
  assumes "keeps (solverKeys movedRoomId rooms) (frozenKeys movedRoomId rooms) w0 wb"
    and "\<forall>c \<in> set directConnections. roomId c \<noteq> movedRoomId \<and> roomId c \<in> solverKeys movedRoomId rooms"
  shows "\<exists>wb'. settle movedRoomId rooms originalGraph directConnections iterations iter wb = Some wb' \<and>
           keeps (solverKeys movedRoomId rooms) (frozenKeys movedRoomId rooms) w0 wb'"
  using assms
proof (induction movedRoomId rooms originalGraph directConnections iterations iter wb rule: settle.induct)
  case (1 movedRoomId rooms originalGraph directConnections iterations iter wb)
  let ?I = "keeps (solverKeys movedRoomId rooms) (frozenKeys movedRoomId rooms) w0"
  show ?case
  proof (cases "real iter < iterations")
    case False
    then show ?thesis using "1.prems"(1) by (subst settle.simps) simp
  next
    case True
    obtain wb1 where wb1: "foldM (attractStep movedRoomId rooms) directConnections wb = Some wb1" "?I wb1"
      using foldM_invariant [of ?I wb directConnections "attractStep movedRoomId rooms"]
        attractStep_keeps "1.prems" by blast
    obtain wb2 where wb2: "foldM (repelStep movedRoomId rooms) rooms wb1 = Some wb2" "?I wb2"
      using foldM_invariant [of ?I wb1 rooms "repelStep movedRoomId rooms"]
        repelStep_keeps wb1(2) by blast
    obtain wb3 where wb3: "(if iter < 3
                         then foldM (secondaryPass movedRoomId rooms originalGraph) directConnections wb2
                         else Some wb2) = Some wb3" "?I wb3"
    proof (cases "iter < 3")
      case True
      then show ?thesis
        using foldM_invariant [of ?I wb2 directConnections "secondaryPass movedRoomId rooms originalGraph"]
          secondaryPass_keeps wb2(2) "1.prems"(2) that by auto
    next
      case False
      then show ?thesis using wb2(2) that by simp
    qed
    have "\<exists>wb'. settle movedRoomId rooms originalGraph directConnections iterations (iter + 1) wb3 = Some wb' \<and> ?I wb'"
      using "1.IH" [OF True wb1(1) wb2(1) wb3(1) wb3(2) "1.prems"(2)] .
    then show ?thesis
      using True wb1(1) wb2(1) wb3(1) by (subst settle.simps) simp
  qed
qed

lemma roomId_connectionOf: "roomId (connectionOf room other) = room_id other"
  by (simp add: connectionOf_def Let_def)

lemma findAdjacentRooms_ids:
  "c \<in> set (findAdjacentRooms room allRooms tolerance) \<Longrightarrow>
     roomId c \<noteq> room_id room \<and> roomId c \<in> room_id ` set allRooms"
  by (induction allRooms) (auto simp: roomId_connectionOf split: if_splits)

lemma graphLoop_lookup:
  "graphLoop rooms xs m k = Some cs \<Longrightarrow>
     m k = Some cs \<or> (\<exists>room \<in> set xs. room_id room = k \<and> cs = findAdjacentRooms room rooms 5)"
proof (induction xs arbitrary: m)
  case Nil
  then show ?case by simp
next
  case (Cons x xs)
  from Cons.prems have "graphLoop rooms xs (m(room_id x \<mapsto> findAdjacentRooms x rooms 5)) k = Some cs"
    by simp
  from Cons.IH [OF this] show ?case
    by (auto split: if_splits)
qed

lemma directConnections_ids:
  assumes "c \<in> set (case buildConnectivityGraph rooms movedRoomId of None \<Rightarrow> [] | Some cs \<Rightarrow> cs)"
  shows "roomId c \<noteq> movedRoomId \<and> roomId c \<in> solverKeys movedRoomId rooms"
proof -
  from assms obtain cs where cs: "buildConnectivityGraph rooms movedRoomId = Some cs" "c \<in> set cs"
    by (cases "buildConnectivityGraph rooms movedRoomId") auto
  from cs(1) obtain room where "room \<in> set rooms" "room_id room = movedRoomId" "cs = findAdjacentRooms room rooms 5"
    unfolding buildConnectivityGraph_def using graphLoop_lookup [of rooms rooms Map.empty movedRoomId cs]
    by auto
  with cs(2) findAdjacentRooms_ids [of c room rooms 5] show ?thesis
    unfolding solverKeys_def by auto
qed

lemma copyBounds_dom:
  "dom (copyBounds rooms m) = dom m \<union> room_id ` set rooms"
  by (induction rooms arbitrary: m) auto

lemma copyBounds_other:
  "k \<notin> room_id ` set rooms \<Longrightarrow> copyBounds rooms m k = m k"
  by (induction rooms arbitrary: m) auto

lemma copyBounds_lookup:
  "distinct (map room_id rooms) \<Longrightarrow> r \<in> set rooms \<Longrightarrow>
     copyBounds rooms m (room_id r) = Some (bounds r)"
proof (induction rooms arbitrary: m)
  case Nil
  then show ?case by simp
next
  case (Cons x xs)
  show ?case
  proof (cases "r = x")
    case True
    then show ?thesis
      using Cons.prems(1) by (simp add: copyBounds_other)
  next
    case False
    then show ?thesis using Cons by auto
  qed
qed

lemma snapAll_keeps:
  assumes "keeps D F w0 wb"
  shows "keeps D F (snapAll K grid w0) (snapAll K grid wb)"
  using assms unfolding keeps_def snapAll_def by (auto simp: dom_def)

lemma keeps_refl: "D \<subseteq> dom wb \<Longrightarrow> keeps D F wb wb"
  unfolding keeps_def by simp

lemma cleanupInner_keeps:
  assumes "keeps (solverKeys movedRoomId rooms) (frozenKeys movedRoomId rooms) w0 (fst st)"
    and "room \<in> set rooms" "room_id room \<noteq> movedRoomId" "\<not> isLocked room" "other \<in> set rooms"
  shows "\<exists>st'. cleanupInner K grid room bnds other st = Some st' \<and>
           keeps (solverKeys movedRoomId rooms) (frozenKeys movedRoomId rooms) w0 (fst st')"
proof -
  obtain ob where ob: "fst st (room_id other) = Some ob"
    using keeps_lookup [OF assms(1) room_in_keys [OF assms(5)]] by blast
  have "room_id room \<notin> frozenKeys movedRoomId rooms"
    using unlocked_not_frozen [OF assms(2) assms(4) assms(3)] .
  then show ?thesis
    using ob keeps_upd [OF assms(1)] assms(1) by (cases st) (auto simp: cleanupInner_def)
qed

lemma cleanupRoom_keeps:
  assumes "keeps (solverKeys movedRoomId rooms) (frozenKeys movedRoomId rooms) w0 (fst st)"
    and "room \<in> set rooms"
  shows "\<exists>st'. cleanupRoom K grid movedRoomId rooms room st = Some st' \<and>
           keeps (solverKeys movedRoomId rooms) (frozenKeys movedRoomId rooms) w0 (fst st')"
proof (cases "room_id room = movedRoomId \<or> isLocked room")
  case True
  then show ?thesis using assms(1) by (cases st) (auto simp: cleanupRoom_def)
next
  case False
  obtain bnds where bnds: "fst st (room_id room) = Some bnds"
    using keeps_lookup [OF assms(1) room_in_keys [OF assms(2)]] by blast
  have "\<exists>st'. foldM (cleanupInner K grid room bnds) rooms st = Some st' \<and>
           keeps (solverKeys movedRoomId rooms) (frozenKeys movedRoomId rooms) w0 (fst st')"
    using foldM_invariant
            [of "\<lambda>st. keeps (solverKeys movedRoomId rooms) (frozenKeys movedRoomId rooms) w0 (fst st)" st
                rooms "cleanupInner K grid room bnds"]
          cleanupInner_keeps [OF _ assms(2)] False assms(1)
    by blast
  then show ?thesis
    using False bnds by (simp add: cleanupRoom_def)
qed

lemma cleanupPass_keeps:
  assumes "keeps (solverKeys movedRoomId rooms) (frozenKeys movedRoomId rooms) w0 wb"
  shows "\<exists>st'. foldM (cleanupRoom K grid movedRoomId rooms) rooms (wb, False) = Some st' \<and>
           keeps (solverKeys movedRoomId rooms) (frozenKeys movedRoomId rooms) w0 (fst st')"
  using foldM_invariant
          [of "\<lambda>st. keeps (solverKeys movedRoomId rooms) (frozenKeys movedRoomId rooms) w0 (fst st)" "(wb, False)"
              rooms "cleanupRoom K grid movedRoomId rooms"]
        cleanupRoom_keeps assms
  by fastforce

lemma cleanupLoop_keeps:
  assumes "keeps (solverKeys movedRoomId rooms) (frozenKeys movedRoomId rooms) w0 wb"
  shows "\<exists>fin. cleanupLoop K grid movedRoomId rooms wb hasOverlap safetyCounter = Some fin \<and>
           keeps (solverKeys movedRoomId rooms) (frozenKeys movedRoomId rooms) w0 (fst fin)"
  using assms
proof (induction K grid movedRoomId rooms wb hasOverlap safetyCounter rule: cleanupLoop.induct)
  case (1 K grid movedRoomId rooms wb hasOverlap safetyCounter)
  show ?case
  proof (cases "hasOverlap \<and> safetyCounter < 10")
    case False
    then show ?thesis using "1.prems" by (subst cleanupLoop.simps) auto
  next
    case True
    obtain st where st: "foldM (cleanupRoom K grid movedRoomId rooms) rooms (wb, False) = Some st"
      "keeps (solverKeys movedRoomId rooms) (frozenKeys movedRoomId rooms) w0 (fst st)"
      using cleanupPass_keeps [OF "1.prems"] by blast
    from "1.IH" [OF True st(1) st(2)] show ?thesis
      using True st(1) by (subst cleanupLoop.simps) simp
  qed
qed

lemma bounds_updateRoom: "bounds (updateRoom K nb room) = nb"
  by (simp add: updateRoom_def)

lemma room_id_updateRoom: "room_id (updateRoom K nb room) = room_id room"
  by (simp add: updateRoom_def)

lemma isLocked_updateRoom: "isLocked (updateRoom K nb room) = isLocked room"
  by (simp add: updateRoom_def)

lemma updateRoom_same: "updateRoom K (bounds room) room = room"
  by (simp add: updateRoom_def)

lemma applyUpdates_map:
  assumes "room_id ` set rooms \<subseteq> dom wb"
  shows "applyUpdates K wb rooms = Some (map (\<lambda>room. updateRoom K (the (wb (room_id room))) room) rooms)"
  using assms by (induction rooms) auto

subsection \<open>A quiet cleanup pass leaves no overlap\<close>

lemma foldM_quiet:
  assumes "foldM f xs s = Some s'" and "Q s'"
    and "\<And>x s t. x \<in> set xs \<Longrightarrow> f x s = Some t \<Longrightarrow> Q t \<Longrightarrow> t = s \<and> R x s"
  shows "s' = s \<and> (\<forall>x \<in> set xs. R x s)"
  using assms
proof (induction xs arbitrary: s)
  case Nil
  then show ?case by simp
next
  case (Cons x xs)
  from Cons.prems(1) obtain s1 where s1: "f x s = Some s1" "foldM f xs s1 = Some s'"
    by (auto split: option.splits)
  have ih: "s' = s1 \<and> (\<forall>y \<in> set xs. R y s1)"
  proof (rule Cons.IH [OF s1(2) Cons.prems(2)])
    fix y s t
    assume "y \<in> set xs" and "f y s = Some t" and "Q t"
    then show "t = s \<and> R y s"
      using Cons.prems(3) [of y s t] by simp
  qed
  then have "Q s1"
    using Cons.prems(2) by simp
  then have "s1 = s \<and> R x s"
    using Cons.prems(3) [of x s s1] s1(1) by simp
  with ih show ?case by simp
qed

lemma cleanupInner_quiet:
  assumes "cleanupInner K grid room bnds other st = Some st'" and "\<not> snd st'"
  shows "st' = st \<and> (room_id other \<noteq> room_id room \<longrightarrow>
           (\<exists>ob. fst st (room_id other) = Some ob \<and> \<not> boundsOverlap bnds ob))"
  using assms by (auto simp: cleanupInner_def split: if_splits option.splits)

lemma cleanupRoom_quiet:
  assumes "cleanupRoom K grid movedRoomId rooms room st = Some st'" and "\<not> snd st'"
  shows "st' = st \<and> (room_id room \<noteq> movedRoomId \<and> \<not> isLocked room \<longrightarrow>
           (\<forall>other \<in> set rooms. room_id other \<noteq> room_id room \<longrightarrow>
              (\<exists>b ob. fst st (room_id room) = Some b \<and> fst st (room_id other) = Some ob \<and>
                       \<not> boundsOverlap b ob)))"
proof (cases "room_id room = movedRoomId \<or> isLocked room")
  case True
  then show ?thesis using assms(1) by (auto simp: cleanupRoom_def split: if_splits)
next
  case False
  then obtain bnds where bnds: "fst st (room_id room) = Some bnds"
    and run: "foldM (cleanupInner K grid room bnds) rooms st = Some st'"
    using assms(1) by (auto simp: cleanupRoom_def split: option.splits)
  have "st' = st \<and> (\<forall>other \<in> set rooms. room_id other \<noteq> room_id room \<longrightarrow>
           (\<exists>ob. fst st (room_id other) = Some ob \<and> \<not> boundsOverlap bnds ob))"
  proof (rule foldM_quiet
            [where Q = "\<lambda>st. \<not> snd st" and f = "cleanupInner K grid room bnds"
               and R = "\<lambda>other st. room_id other \<noteq> room_id room \<longrightarrow>
                 (\<exists>ob. fst st (room_id other) = Some ob \<and> \<not> boundsOverlap bnds ob)",
             OF run assms(2)])
    fix x s t
    assume "cleanupInner K grid room bnds x s = Some t" and "\<not> snd t"
    then show "t = s \<and> (room_id x \<noteq> room_id room \<longrightarrow>
                 (\<exists>ob. fst s (room_id x) = Some ob \<and> \<not> boundsOverlap bnds ob))"
      by (rule cleanupInner_quiet)
  qed
  then show ?thesis
    using bnds by auto
qed

lemma cleanupPass_quiet:
  assumes "foldM (cleanupRoom K grid movedRoomId rooms) rooms (wb, False) = Some st'" and "\<not> snd st'"
  shows "fst st' = wb \<and> settled movedRoomId rooms wb"
proof -
  have "st' = (wb, False) \<and> (\<forall>room \<in> set rooms. room_id room \<noteq> movedRoomId \<and> \<not> isLocked room \<longrightarrow>
           (\<forall>other \<in> set rooms. room_id other \<noteq> room_id room \<longrightarrow>
              (\<exists>b ob. fst (wb, False) (room_id room) = Some b \<and> fst (wb, False) (room_id other) = Some ob \<and>
                       \<not> boundsOverlap b ob)))"
  proof (rule foldM_quiet
            [where Q = "\<lambda>st. \<not> snd st" and f = "cleanupRoom K grid movedRoomId rooms"
               and R = "\<lambda>room st. room_id room \<noteq> movedRoomId \<and> \<not> isLocked room \<longrightarrow>
                 (\<forall>other \<in> set rooms. room_id other \<noteq> room_id room \<longrightarrow>
                    (\<exists>b ob. fst st (room_id room) = Some b \<and> fst st (room_id other) = Some ob \<and>
                             \<not> boundsOverlap b ob))",
             OF assms])
    fix x s t
    assume "cleanupRoom K grid movedRoomId rooms x s = Some t" and "\<not> snd t"
    then show "t = s \<and> (room_id x \<noteq> movedRoomId \<and> \<not> isLocked x \<longrightarrow>
                 (\<forall>other \<in> set rooms. room_id other \<noteq> room_id x \<longrightarrow>
                    (\<exists>b ob. fst s (room_id x) = Some b \<and> fst s (room_id other) = Some ob \<and>
                             \<not> boundsOverlap b ob)))"
      by (rule cleanupRoom_quiet)
  qed
  then show ?thesis
    unfolding settled_def by simp
qed

lemma cleanupLoop_settled:
  assumes "cleanupLoop K grid movedRoomId rooms wb hasOverlap safetyCounter = Some fin"
    and "\<not> fst (snd fin)"
  shows "(\<not> hasOverlap \<and> fst fin = wb) \<or> settled movedRoomId rooms (fst fin)"
  using assms
proof (induction K grid movedRoomId rooms wb hasOverlap safetyCounter rule: cleanupLoop.induct)
  case (1 K grid movedRoomId rooms wb hasOverlap safetyCounter)
  show ?case
  proof (cases "hasOverlap \<and> safetyCounter < 10")
    case False
    then have "fin = (wb, hasOverlap, safetyCounter)"
      using "1.prems"(1) by (subst (asm) cleanupLoop.simps) auto
    then show ?thesis using "1.prems"(2) by simp
  next
    case True
    then obtain st where st: "foldM (cleanupRoom K grid movedRoomId rooms) rooms (wb, False) = Some st"
      and rec: "cleanupLoop K grid movedRoomId rooms (fst st) (snd st) (safetyCounter + 1) = Some fin"
      using "1.prems"(1) by (subst (asm) cleanupLoop.simps) (auto split: option.splits)
    from "1.IH" [OF True st rec "1.prems"(2)]
    show ?thesis
      using cleanupPass_quiet [OF st] by auto
  qed
qed

lemma cleanupLoop_counter:
  assumes "cleanupLoop K grid movedRoomId rooms wb hasOverlap safetyCounter = Some fin"
    and "safetyCounter \<le> 10"
  shows "snd (snd fin) \<le> 10 \<and> (fst (snd fin) \<longrightarrow> snd (snd fin) = 10)"
  using assms
proof (induction K grid movedRoomId rooms wb hasOverlap safetyCounter rule: cleanupLoop.induct)
  case (1 K grid movedRoomId rooms wb hasOverlap safetyCounter)
  show ?case
  proof (cases "hasOverlap \<and> safetyCounter < 10")
    case False
    then have "fin = (wb, hasOverlap, safetyCounter)"
      using "1.prems"(1) by (subst (asm) cleanupLoop.simps) auto
    then show ?thesis using "1.prems"(2) False by auto
  next
    case True
    then obtain st where st: "foldM (cleanupRoom K grid movedRoomId rooms) rooms (wb, False) = Some st"
      and rec: "cleanupLoop K grid movedRoomId rooms (fst st) (snd st) (safetyCounter + 1) = Some fin"
      using "1.prems"(1) by (subst (asm) cleanupLoop.simps) (auto split: option.splits)
    from "1.IH" [OF True st rec] True show ?thesis
      by simp
  qed
qed

text \<open>The shape of a whole run.\<close>

lemma run_structure:
  fixes K movedRoomId newBounds rooms grid iterations
  defines "wb1 \<equiv> (copyBounds rooms Map.empty)(movedRoomId \<mapsto> newBounds)"
  shows "\<exists>fin.
           keeps (solverKeys movedRoomId rooms) (frozenKeys movedRoomId rooms)
                 (snapAll K grid wb1) (fst fin) \<and>
           snd (snd fin) \<le> 10 \<and> (fst (snd fin) \<longrightarrow> snd (snd fin) = 10) \<and>
           (\<not> fst (snd fin) \<longrightarrow> settled movedRoomId rooms (fst fin)) \<and>
           applySpringNetworkRun K movedRoomId newBounds rooms grid iterations =
             Some (map (\<lambda>room. updateRoom K (the (fst fin (room_id room))) room) rooms, snd fin)"
proof -
  let ?D = "solverKeys movedRoomId rooms" and ?F = "frozenKeys movedRoomId rooms"
  let ?dc = "case buildConnectivityGraph rooms movedRoomId of None \<Rightarrow> [] | Some cs \<Rightarrow> cs"
  have "?D \<subseteq> dom wb1"
    unfolding wb1_def solverKeys_def by (auto simp: copyBounds_dom)
  then have k1: "keeps ?D ?F wb1 wb1"
    by (rule keeps_refl)
  obtain w2 where w2: "settle movedRoomId rooms (buildConnectivityGraph rooms) ?dc iterations 0 wb1 = Some w2"
    and k2: "keeps ?D ?F wb1 w2"
    using settle_keeps [OF k1, of ?dc "buildConnectivityGraph rooms" iterations 0] directConnections_ids
    by blast
  have k3: "keeps ?D ?F (snapAll K grid wb1) (snapAll K grid w2)"
    using snapAll_keeps [OF k2] .
  obtain fin where fin: "cleanupLoop K grid movedRoomId rooms (snapAll K grid w2) True 0 = Some fin"
    and k4: "keeps ?D ?F (snapAll K grid wb1) (fst fin)"
    using cleanupLoop_keeps [OF k3] by blast
  have cnt: "snd (snd fin) \<le> 10 \<and> (fst (snd fin) \<longrightarrow> snd (snd fin) = 10)"
    using cleanupLoop_counter [OF fin] by simp
  have stl: "\<not> fst (snd fin) \<longrightarrow> settled movedRoomId rooms (fst fin)"
    using cleanupLoop_settled [OF fin] by auto
  have "room_id ` set rooms \<subseteq> dom (fst fin)"
    using k4 unfolding keeps_def solverKeys_def by auto
  then have upd: "applyUpdates K (fst fin) rooms =
      Some (map (\<lambda>room. updateRoom K (the (fst fin (room_id room))) room) rooms)"
    by (rule applyUpdates_map)
  have "applySpringNetworkRun K movedRoomId newBounds rooms grid iterations =
             Some (map (\<lambda>room. updateRoom K (the (fst fin (room_id room))) room) rooms, snd fin)"
    unfolding applySpringNetworkRun_def Let_def using w2 fin upd
    by (simp add: wb1_def)
  with k4 cnt stl show ?thesis
    by blast
qed

section \<open>The solver: results\<close>

text \<open>Rules that evaluate the solver on concrete inputs.\<close>

lemmas solver_eval =
  plainRoom_def box_def exampleConsts_def grid10_def
  applySpringNetworkRun_def applySpringNetwork_def
  buildConnectivityGraph_def boundsAdjacent_def boundsOverlap_def connectionOf_def getBoundsCenter_def
  calculateConnectedPosition_def keepWithinCanvas_def springPull_def attractStep_def pushDist_def
  overlapAlongX_def overlapAlongY_def repelAccum_def repelStep_def secondaryStep_def secondaryPass_def
  snapAll_def cleanupShift_def cleanupPush_def cleanupInner_def cleanupRoom_def updateRoom_def snapBoundsToGrid_def snapToGrid_def
  round_def boundsToPoints_def pixelsToInches_def pixelsToSqft_def Let_def settle.simps cleanupLoop.simps

lemma boundsOverlap_sym: "boundsOverlap a b = boundsOverlap b a"
  unfolding boundsOverlap_def by auto

lemma run_result:
  fixes K movedRoomId newBounds rooms grid iterations
  shows "\<exists>wbF.
           keeps (solverKeys movedRoomId rooms) (frozenKeys movedRoomId rooms)
                 (snapAll K grid ((copyBounds rooms Map.empty)(movedRoomId \<mapsto> newBounds))) wbF \<and>
           applySpringNetwork K movedRoomId newBounds rooms grid iterations =
             Some (map (\<lambda>room. updateRoom K (the (wbF (room_id room))) room) rooms)"
  using run_structure [of movedRoomId rooms K grid newBounds iterations]
  by (auto simp: applySpringNetwork_def)

lemma bounds_plainRoom: "bounds (plainRoom i b l) = b"
  and room_id_plainRoom: "room_id (plainRoom i b l) = i"
  and isLocked_plainRoom: "isLocked (plainRoom i b l) = l"
  by (simp_all add: plainRoom_def)

subsection \<open>No overlap between unlocked rooms\<close>

text \<open>
  Claim C1.  For every room list, moved-room id, new bounds, grid config and iteration
  budget the solver returns a room list, and in it any two unlocked rooms with different
  ids have boxes that do not overlap, unless the cleanup loop left at its cap of ten
  passes with \<^verbatim>\<open>hasOverlap\<close> still set (the best-effort exit).  Rooms are told apart
  by their ids, as the solver itself does (\<^verbatim>\<open>other.id === room.id\<close>); when the ids of
  the list are pairwise distinct this is the same as taking two different positions of
  the returned list.
\<close>

theorem solver_separates_unlocked_rooms:
  "\<exists>result hasOverlap safetyCounter.
     applySpringNetworkRun K movedRoomId newBounds rooms grid iterations =
       Some (result, hasOverlap, safetyCounter) \<and>
     applySpringNetwork K movedRoomId newBounds rooms grid iterations = Some result \<and>
     map room_id result = map room_id rooms \<and>
     (\<not> (hasOverlap \<and> safetyCounter = 10) \<longrightarrow>
        (\<forall>p \<in> set result. \<forall>q \<in> set result.
           room_id p \<noteq> room_id q \<and> \<not> isLocked p \<and> \<not> isLocked q \<longrightarrow>
             \<not> boundsOverlap (bounds p) (bounds q)) \<and>
        (distinct (map room_id rooms) \<longrightarrow>
           (\<forall>i < length result. \<forall>j < length result.
              i \<noteq> j \<and> \<not> isLocked (result ! i) \<and> \<not> isLocked (result ! j) \<longrightarrow>
                \<not> boundsOverlap (bounds (result ! i)) (bounds (result ! j)))))"
proof -
  obtain fin where cnt: "fst (snd fin) \<longrightarrow> snd (snd fin) = 10"
    and stl: "\<not> fst (snd fin) \<longrightarrow> settled movedRoomId rooms (fst fin)"
    and run: "applySpringNetworkRun K movedRoomId newBounds rooms grid iterations =
             Some (map (\<lambda>room. updateRoom K (the (fst fin (room_id room))) room) rooms, snd fin)"
    using run_structure [of movedRoomId rooms K grid newBounds iterations] by blast
  let ?g = "\<lambda>room. updateRoom K (the (fst fin (room_id room))) room"
  have ids: "map room_id (map ?g rooms) = map room_id rooms"
    by (simp add: room_id_updateRoom)
  have sep: "\<not> boundsOverlap (bounds p) (bounds q)"
    if quiet: "\<not> (fst (snd fin) \<and> snd (snd fin) = 10)"
      and p: "p \<in> set (map ?g rooms)" and q: "q \<in> set (map ?g rooms)"
      and ne: "room_id p \<noteq> room_id q" and up: "\<not> isLocked p" and uq: "\<not> isLocked q"
    for p q
  proof -
    from quiet cnt have "\<not> fst (snd fin)" by blast
    with stl have S: "settled movedRoomId rooms (fst fin)" by simp
    from p obtain rp where rp: "rp \<in> set rooms" "p = ?g rp" by auto
    from q obtain rq where rq: "rq \<in> set rooms" "q = ?g rq" by auto
    have rids: "room_id rp \<noteq> room_id rq" "\<not> isLocked rp" "\<not> isLocked rq"
      using ne up uq rp(2) rq(2) by (simp_all add: room_id_updateRoom isLocked_updateRoom)
    have bp: "bounds p = the (fst fin (room_id rp))" and bq: "bounds q = the (fst fin (room_id rq))"
      using rp(2) rq(2) by (simp_all add: bounds_updateRoom)
    show ?thesis
    proof (cases "room_id rp = movedRoomId")
      case False
      then obtain b ob where "fst fin (room_id rp) = Some b" "fst fin (room_id rq) = Some ob"
        "\<not> boundsOverlap b ob"
        using S rp(1) rq(1) rids unfolding settled_def by metis
      then show ?thesis using bp bq by simp
    next
      case True
      then have "room_id rq \<noteq> movedRoomId" using rids(1) by simp
      then obtain b ob where "fst fin (room_id rq) = Some b" "fst fin (room_id rp) = Some ob"
        "\<not> boundsOverlap b ob"
        using S rp(1) rq(1) rids unfolding settled_def by metis
      then show ?thesis using bp bq boundsOverlap_sym by simp
    qed
  qed
  have sepi: "\<not> boundsOverlap (bounds (map ?g rooms ! i)) (bounds (map ?g rooms ! j))"
    if quiet: "\<not> (fst (snd fin) \<and> snd (snd fin) = 10)"
      and d: "distinct (map room_id rooms)"
      and i: "i < length (map ?g rooms)" and j: "j < length (map ?g rooms)" and ij: "i \<noteq> j"
      and ui: "\<not> isLocked (map ?g rooms ! i)" and uj: "\<not> isLocked (map ?g rooms ! j)"
    for i j
  proof -
    have "map room_id rooms ! i \<noteq> map room_id rooms ! j"
      using nth_eq_iff_index_eq [OF d, of i j] i j ij by simp
    then have "room_id (map ?g rooms ! i) \<noteq> room_id (map ?g rooms ! j)"
      using i j by (simp add: room_id_updateRoom)
    moreover have "map ?g rooms ! i \<in> set (map ?g rooms)" and "map ?g rooms ! j \<in> set (map ?g rooms)"
      using i j nth_mem by blast+
    ultimately show ?thesis
      using sep [OF quiet] ui uj by blast
  qed
  show ?thesis
  proof (intro exI conjI)
    show "applySpringNetworkRun K movedRoomId newBounds rooms grid iterations =
       Some (map ?g rooms, fst (snd fin), snd (snd fin))"
      using run by simp
    show "applySpringNetwork K movedRoomId newBounds rooms grid iterations = Some (map ?g rooms)"
      using run by (simp add: applySpringNetwork_def)
    show "map room_id (map ?g rooms) = map room_id rooms"
      by (rule ids)
    show "\<not> (fst (snd fin) \<and> snd (snd fin) = 10) \<longrightarrow>
        (\<forall>p \<in> set (map ?g rooms). \<forall>q \<in> set (map ?g rooms).
           room_id p \<noteq> room_id q \<and> \<not> isLocked p \<and> \<not> isLocked q \<longrightarrow>
             \<not> boundsOverlap (bounds p) (bounds q)) \<and>
        (distinct (map room_id rooms) \<longrightarrow>
           (\<forall>i < length (map ?g rooms). \<forall>j < length (map ?g rooms).
              i \<noteq> j \<and> \<not> isLocked (map ?g rooms ! i) \<and> \<not> isLocked (map ?g rooms ! j) \<longrightarrow>
                \<not> boundsOverlap (bounds (map ?g rooms ! i)) (bounds (map ?g rooms ! j))))"
      using sep sepi by blast
  qed
qed

text \<open>Dragging a room 20 units into its right neighbour pushes the neighbour away; the
  cleanup loop leaves after one quiet pass.\<close>

lemma example_push_run:
  "applySpringNetworkRun exampleConsts ''a'' (box 20 0 40 40)
     [plainRoom ''a'' (box 0 0 40 40) False, plainRoom ''b'' (box 40 0 40 40) False] (grid10 True) 8 =
   Some ([plainRoom ''a'' (box 20 0 40 40) False, plainRoom ''b'' (box 60 0 40 40) False], False, 1)"
  by (simp add: solver_eval)

theorem solver_separates_unlocked_rooms_witness:
  "applySpringNetworkRun exampleConsts ''a'' (box 20 0 40 40)
     [plainRoom ''a'' (box 0 0 40 40) False, plainRoom ''b'' (box 40 0 40 40) False] (grid10 True) 8 =
   Some ([plainRoom ''a'' (box 20 0 40 40) False, plainRoom ''b'' (box 60 0 40 40) False], False, 1) \<and>
   \<not> boundsOverlap (box 20 0 40 40) (box 60 0 40 40)"
proof -
  from solver_separates_unlocked_rooms
         [of exampleConsts "''a''" "box 20 0 40 40"
             "[plainRoom ''a'' (box 0 0 40 40) False, plainRoom ''b'' (box 40 0 40 40) False]"
             "grid10 True" 8]
  have "\<forall>p \<in> set [plainRoom ''a'' (box 20 0 40 40) False, plainRoom ''b'' (box 60 0 40 40) False].
        \<forall>q \<in> set [plainRoom ''a'' (box 20 0 40 40) False, plainRoom ''b'' (box 60 0 40 40) False].
           room_id p \<noteq> room_id q \<and> \<not> isLocked p \<and> \<not> isLocked q \<longrightarrow>
             \<not> boundsOverlap (bounds p) (bounds q)"
    unfolding example_push_run by auto
  then have "\<not> boundsOverlap (box 20 0 40 40) (box 60 0 40 40)"
    by (simp add: bounds_plainRoom room_id_plainRoom isLocked_plainRoom)
  with example_push_run show ?thesis
    by simp
qed

subsection \<open>The moved room\<close>

text \<open>
  Claim C2 as written: the moved room comes back with exactly the requested bounds.
  The pass that snaps every working box to the grid and keeps it within the canvas
  also treats the moved room: a request for \<open>x = 3\<close> on a grid of pitch 10 ends at
  \<open>x = 0\<close>.
\<close>

theorem moved_room_off_grid_counterexample:
  "applySpringNetwork exampleConsts ''a'' (box 3 0 40 40)
     [plainRoom ''a'' (box 0 0 40 40) False] (grid10 True) 8 =
   Some [plainRoom ''a'' (box 0 0 40 40) False] \<and>
   bounds (plainRoom ''a'' (box 0 0 40 40) False) \<noteq> box 3 0 40 40"
  by (simp add: solver_eval)

text \<open>
  Claim C2, amended.  For every call, every room with the id \<open>movedRoomId\<close> comes back
  with the box obtained from \<open>newBounds\<close> by snapping it to the grid and keeping it
  within the canvas; that box is \<open>newBounds\<close> itself exactly when \<open>newBounds\<close> is already
  snapped and within the canvas.
\<close>

theorem moved_room_snapped_bounds:
  "\<exists>result.
     applySpringNetwork K movedRoomId newBounds rooms grid iterations = Some result \<and>
     length result = length rooms \<and>
     (\<forall>i < length rooms. room_id (rooms ! i) = movedRoomId \<longrightarrow>
        room_id (result ! i) = movedRoomId \<and>
        bounds (result ! i) = keepWithinCanvas K (snapBoundsToGrid K newBounds grid) \<and>
        (keepWithinCanvas K (snapBoundsToGrid K newBounds grid) = newBounds \<longrightarrow>
           bounds (result ! i) = newBounds))"
proof -
  obtain wbF where k: "keeps (solverKeys movedRoomId rooms) (frozenKeys movedRoomId rooms)
                 (snapAll K grid ((copyBounds rooms Map.empty)(movedRoomId \<mapsto> newBounds))) wbF"
    and run: "applySpringNetwork K movedRoomId newBounds rooms grid iterations =
             Some (map (\<lambda>room. updateRoom K (the (wbF (room_id room))) room) rooms)"
    using run_result by blast
  have "movedRoomId \<in> frozenKeys movedRoomId rooms"
    unfolding frozenKeys_def by simp
  then have "wbF movedRoomId = Some (keepWithinCanvas K (snapBoundsToGrid K newBounds grid))"
    using k unfolding keeps_def snapAll_def by simp
  then show ?thesis
    using run by (simp add: bounds_updateRoom room_id_updateRoom)
qed

theorem moved_room_snapped_bounds_witness:
  "applySpringNetwork exampleConsts ''a'' (box 23 (- 5) 40 40)
     [plainRoom ''a'' (box 0 0 40 40) False, plainRoom ''b'' (box 200 200 40 40) False] (grid10 True) 8 =
   Some [plainRoom ''a'' (box 20 0 40 40) False, plainRoom ''b'' (box 200 200 40 40) False] \<and>
   keepWithinCanvas exampleConsts (snapBoundsToGrid exampleConsts (box 23 (- 5) 40 40) (grid10 True)) =
     box 20 0 40 40"
proof -
  have run: "applySpringNetwork exampleConsts ''a'' (box 23 (- 5) 40 40)
     [plainRoom ''a'' (box 0 0 40 40) False, plainRoom ''b'' (box 200 200 40 40) False] (grid10 True) 8 =
   Some [plainRoom ''a'' (box 20 0 40 40) False, plainRoom ''b'' (box 200 200 40 40) False]"
    by (simp add: solver_eval)
  from moved_room_snapped_bounds
         [of exampleConsts "''a''" "box 23 (- 5) 40 40"
             "[plainRoom ''a'' (box 0 0 40 40) False, plainRoom ''b'' (box 200 200 40 40) False]"
             "grid10 True" 8]
  have "bounds ([plainRoom ''a'' (box 20 0 40 40) False, plainRoom ''b'' (box 200 200 40 40) False] ! 0) =
          keepWithinCanvas exampleConsts (snapBoundsToGrid exampleConsts (box 23 (- 5) 40 40) (grid10 True))"
    unfolding run by (auto simp: room_id_plainRoom)
  then have "keepWithinCanvas exampleConsts (snapBoundsToGrid exampleConsts (box 23 (- 5) 40 40) (grid10 True)) =
     box 20 0 40 40"
    by (simp add: bounds_plainRoom)
  with run show ?thesis
    by simp
qed

subsection \<open>Locked rooms\<close>

text \<open>
  Claim C3 as written: every locked room comes back with the fields it had.  The solver
  does not look at the lock of the room it is asked to move: a locked room named as
  \<open>movedRoomId\<close> takes the new bounds.
\<close>

theorem locked_moved_room_counterexample:
  "isLocked (plainRoom ''a'' (box 0 0 40 40) True) \<and>
   applySpringNetwork exampleConsts ''a'' (box 100 100 40 40)
     [plainRoom ''a'' (box 0 0 40 40) True] (grid10 True) 8 =
   Some [plainRoom ''a'' (box 100 100 40 40) True] \<and>
   bounds (plainRoom ''a'' (box 100 100 40 40) True) \<noteq> bounds (plainRoom ''a'' (box 0 0 40 40) True)"
  by (simp add: solver_eval)

text \<open>
  Claim C3, amended.  In a room list with pairwise distinct ids, every locked room other
  than the moved one whose box is already on the grid and within the canvas (snapping and
  clamping leave it as it is) comes back identical in every field.
\<close>

theorem locked_room_returned_unchanged:
  assumes "distinct (map room_id rooms)"
  shows "\<exists>result.
     applySpringNetwork K movedRoomId newBounds rooms grid iterations = Some result \<and>
     length result = length rooms \<and>
     (\<forall>i < length rooms.
        isLocked (rooms ! i) \<and> room_id (rooms ! i) \<noteq> movedRoomId \<and>
        keepWithinCanvas K (snapBoundsToGrid K (bounds (rooms ! i)) grid) = bounds (rooms ! i) \<longrightarrow>
          result ! i = rooms ! i)"
proof -
  obtain wbF where k: "keeps (solverKeys movedRoomId rooms) (frozenKeys movedRoomId rooms)
                 (snapAll K grid ((copyBounds rooms Map.empty)(movedRoomId \<mapsto> newBounds))) wbF"
    and run: "applySpringNetwork K movedRoomId newBounds rooms grid iterations =
             Some (map (\<lambda>room. updateRoom K (the (wbF (room_id room))) room) rooms)"
    using run_result by blast
  have same: "updateRoom K (the (wbF (room_id r))) r = r"
    if r: "r \<in> set rooms" and l: "isLocked r" and nm: "room_id r \<noteq> movedRoomId"
      and fp: "keepWithinCanvas K (snapBoundsToGrid K (bounds r) grid) = bounds r" for r
  proof -
    have "\<forall>r' \<in> set rooms. room_id r' = room_id r \<longrightarrow> r' = r"
      using assms r by (meson distinct_map inj_onD)
    then have "room_id r \<in> frozenKeys movedRoomId rooms"
      using l unfolding frozenKeys_def by auto
    moreover have "((copyBounds rooms Map.empty)(movedRoomId \<mapsto> newBounds)) (room_id r) = Some (bounds r)"
      using nm copyBounds_lookup [OF assms r] by simp
    ultimately have "wbF (room_id r) = Some (bounds r)"
      using k fp unfolding keeps_def snapAll_def by simp
    then show ?thesis
      by (simp add: updateRoom_same)
  qed
  show ?thesis
    using run same by (auto simp: nth_mem)
qed

theorem locked_room_returned_unchanged_witness:
  "distinct (map room_id [plainRoom ''a'' (box 0 0 40 40) False, plainRoom ''c'' (box 0 40 40 40) True]) \<and>
   applySpringNetwork exampleConsts ''a'' (box 0 20 40 40)
     [plainRoom ''a'' (box 0 0 40 40) False, plainRoom ''c'' (box 0 40 40 40) True] (grid10 True) 8 =
   Some [plainRoom ''a'' (box 0 20 40 40) False, plainRoom ''c'' (box 0 40 40 40) True]"
proof -
  have d: "distinct (map room_id [plainRoom ''a'' (box 0 0 40 40) False, plainRoom ''c'' (box 0 40 40 40) True])"
    by (simp add: room_id_plainRoom)
  have fp: "keepWithinCanvas exampleConsts (snapBoundsToGrid exampleConsts (box 0 40 40 40) (grid10 True)) =
     box 0 40 40 40"
    by (simp add: solver_eval)
  from locked_room_returned_unchanged [OF d, of exampleConsts "''a''" "box 0 20 40 40" "grid10 True" 8]
  obtain result where r: "applySpringNetwork exampleConsts ''a'' (box 0 20 40 40)
     [plainRoom ''a'' (box 0 0 40 40) False, plainRoom ''c'' (box 0 40 40 40) True] (grid10 True) 8 = Some result"
    and len: "length result = 2"
    and second: "result ! 1 = plainRoom ''c'' (box 0 40 40 40) True"
    using fp by (auto simp: bounds_plainRoom room_id_plainRoom isLocked_plainRoom)
  have "map_option (\<lambda>rs. rs ! 0) (applySpringNetwork exampleConsts ''a'' (box 0 20 40 40)
     [plainRoom ''a'' (box 0 0 40 40) False, plainRoom ''c'' (box 0 40 40 40) True] (grid10 True) 8) =
     Some (plainRoom ''a'' (box 0 20 40 40) False)"
    by (simp add: solver_eval)
  then have first: "result ! 0 = plainRoom ''a'' (box 0 20 40 40) False"
    using r by simp
  have "result = [result ! 0, result ! 1]"
    using len by (cases result; cases "tl result") auto
  with first second r d show ?thesis
    by simp
qed

text \<open>The amended claim is silent on locked rooms that are off the grid.  The snapping
  pass has no test of the lock, unlike the three passes before it, and moves such a
  room:\<close>

lemma locked_room_off_grid_moves:
  "applySpringNetwork exampleConsts ''a'' (box 100 100 40 40)
     [plainRoom ''a'' (box 0 0 40 40) False, plainRoom ''c'' (box 203 200 40 40) True] (grid10 True) 8 =
   Some [plainRoom ''a'' (box 100 100 40 40) False, plainRoom ''c'' (box 200 200 40 40) True]"
  by (simp add: solver_eval)

subsection \<open>Repulsion is total\<close>






section \<open>Which objects a call writes to\<close>

lemmas store_eval =
  roomAt_def alloc_def boundsView_def attractStepS_def repelStepS_def secondaryStepS_def
  secondaryPassS_def settleS.simps snapBoundsToGridS_def keepWithinCanvasS_def snapEntryS_def
  snapAllS_def cleanupInnerS_def cleanupRoomS_def cleanupLoopS.simps applySpringNetworkS_def

text \<open>All passes but one only allocate: they never write to an object that was there before the call.\<close>

lemma foldM_preserves:
  assumes "foldM f xs s = Some s'" and "I s"
    and "\<And>x s t. x \<in> set xs \<Longrightarrow> f x s = Some t \<Longrightarrow> I s \<Longrightarrow> I t"
  shows "I s'"
  using assms
proof (induction xs arbitrary: s)
  case Nil
  then show ?case by simp
next
  case (Cons x xs)
  from Cons.prems(1) obtain s1 where s1: "f x s = Some s1" "foldM f xs s1 = Some s'"
    by (auto split: option.splits)
  have "I s1"
    using Cons.prems(3) [of x s s1] s1(1) Cons.prems(2) by simp
  with s1(2) show ?case
  proof (rule Cons.IH)
    fix y s t
    assume "y \<in> set xs" and "f y s = Some t" and "I s"
    then show "I t"
      using Cons.prems(3) [of y s t] by simp
  qed
qed

lemma framed_alloc: "framed P h0 h \<Longrightarrow> framed P h0 (snd (alloc b h))"
  unfolding framed_def alloc_def by (auto simp: nth_append)

lemma fresh_alloc: "framed P h0 h \<Longrightarrow> length h0 \<le> fst (alloc b h)"
  unfolding framed_def alloc_def by simp

lemma refsFresh_mapSet:
  "refsFresh n nb wb \<Longrightarrow> n \<le> a \<or> a = nb \<Longrightarrow> refsFresh n nb (mapSet k a wb)"
  unfolding refsFresh_def by (induction wb) auto

lemma refsFresh_lookup:
  "refsFresh n nb wb \<Longrightarrow> map_of wb k = Some a \<Longrightarrow> n \<le> a \<or> a = nb"
  unfolding refsFresh_def by (metis map_of_SomeD snd_conv)

lemma storeInv_alloc_set:
  assumes "storeInv P h0 nb st"
  shows "storeInv P h0 nb (snd (alloc b (fst st)), mapSet k (fst (alloc b (fst st))) (snd st))"
  using assms framed_alloc fresh_alloc refsFresh_mapSet
  unfolding storeInv_def by fastforce

lemma copyBoundsS_inv:
  "storeInv P h0 nb st \<Longrightarrow> storeInv P h0 nb (copyBoundsS rooms st)"
proof (induction rooms arbitrary: st)
  case Nil
  then show ?case by simp
next
  case (Cons r rooms)
  show ?case
    using Cons.IH [OF storeInv_alloc_set [OF Cons.prems]] by (simp add: Let_def)
qed

lemma attractStepS_inv:
  assumes "attractStepS movedRoomId rooms connection st = Some st'" and "storeInv P h0 nb st"
  shows "storeInv P h0 nb st'"
  using assms storeInv_alloc_set [OF assms(2)]
  by (auto simp: attractStepS_def Let_def split: option.splits if_splits)

lemma repelStepS_inv:
  assumes "repelStepS movedRoomId rooms room st = Some st'" and "storeInv P h0 nb st"
  shows "storeInv P h0 nb st'"
  using assms storeInv_alloc_set [OF assms(2)]
  by (auto simp: repelStepS_def Let_def split: option.splits if_splits)

lemma secondaryStepS_inv:
  assumes "secondaryStepS movedRoomId rooms connection secondary st = Some st'" and "storeInv P h0 nb st"
  shows "storeInv P h0 nb st'"
  using assms storeInv_alloc_set [OF assms(2)]
  by (auto simp: secondaryStepS_def Let_def split: option.splits if_splits)

lemma secondaryPassS_inv:
  assumes "secondaryPassS movedRoomId rooms originalGraph connection st = Some st'" and "storeInv P h0 nb st"
  shows "storeInv P h0 nb st'"
  using assms(1) unfolding secondaryPassS_def Let_def
  by (rule foldM_preserves [where I = "storeInv P h0 nb"]) (auto intro: assms(2) secondaryStepS_inv)

lemma settleS_inv:
  assumes "settleS movedRoomId rooms originalGraph directConnections iterations iter st = Some st'"
    and "storeInv P h0 nb st"
  shows "storeInv P h0 nb st'"
  using assms
proof (induction movedRoomId rooms originalGraph directConnections iterations iter st rule: settleS.induct)
  case (1 movedRoomId rooms originalGraph directConnections iterations iter st)
  show ?case
  proof (cases "real iter < iterations")
    case False
    then show ?thesis using "1.prems" by (subst (asm) settleS.simps) simp
  next
    case True
    from "1.prems"(1) True obtain st1 st2 st3 where
      a: "foldM (attractStepS movedRoomId rooms) directConnections st = Some st1" and
      b: "foldM (repelStepS movedRoomId rooms) rooms st1 = Some st2" and
      c: "(if iter < 3
           then foldM (secondaryPassS movedRoomId rooms originalGraph) directConnections st2
           else Some st2) = Some st3" and
      d: "settleS movedRoomId rooms originalGraph directConnections iterations (iter + 1) st3 = Some st'"
      by (subst (asm) settleS.simps) (auto split: option.splits)
    have i1: "storeInv P h0 nb st1"
      using a "1.prems"(2) by (rule foldM_preserves) (rule attractStepS_inv)
    have i2: "storeInv P h0 nb st2"
      using b i1 by (rule foldM_preserves) (rule repelStepS_inv)
    have i3: "storeInv P h0 nb st3"
    proof (cases "iter < 3")
      case True
      then have "foldM (secondaryPassS movedRoomId rooms originalGraph) directConnections st2 = Some st3"
        using c by simp
      then show ?thesis using i2 by (rule foldM_preserves) (rule secondaryPassS_inv)
    next
      case False
      then show ?thesis using c i2 by simp
    qed
    show ?thesis
      using "1.IH" [OF True a b c d i3] .
  qed
qed

lemma framed_write:
  assumes "framed P h0 h" and "length h0 \<le> a \<or> \<not> P a"
  shows "framed P h0 (h[a := v])"
  unfolding framed_def
proof (intro conjI allI impI)
  show "length h0 \<le> length (h[a := v])"
    using assms(1) unfolding framed_def by simp
next
  fix c
  assume c: "c < length h0" "P c"
  then have "c \<noteq> a"
    using assms(2) by auto
  then show "h[a := v] ! c = h0 ! c"
    using assms(1) c unfolding framed_def by simp
qed

lemma snapEntryS_inv:
  assumes "storeInv P h0 nb st" and "snapEnabled grid \<or> \<not> P nb"
    and "length h0 \<le> snd e \<or> snd e = nb"
  shows "storeInv P h0 nb (snapEntryS K grid e st)"
proof (cases "snapEnabled grid")
  case True
  let ?al = "alloc (snapBoundsToGrid K (fst st ! snd e) grid) (fst st)"
  have f: "framed P h0 (snd ?al)" and g: "length h0 \<le> fst ?al"
    using assms(1) framed_alloc fresh_alloc unfolding storeInv_def by blast+
  have "framed P h0 ((snd ?al)[fst ?al := keepWithinCanvas K (snd ?al ! fst ?al)])"
    using framed_write [OF f] g by simp
  moreover have "refsFresh (length h0) nb (mapSet (fst e) (fst ?al) (snd st))"
    using assms(1) g refsFresh_mapSet unfolding storeInv_def by simp
  ultimately show ?thesis
    using True unfolding storeInv_def snapEntryS_def snapBoundsToGridS_def keepWithinCanvasS_def Let_def
    by simp
next
  case False
  then have np: "\<not> P nb" using assms(2) by simp
  have "framed P h0 ((fst st)[snd e := keepWithinCanvas K (fst st ! snd e)])"
    using framed_write [of P h0 "fst st" "snd e"] assms(1,3) np unfolding storeInv_def by auto
  moreover have "refsFresh (length h0) nb (mapSet (fst e) (snd e) (snd st))"
    using assms(1,3) refsFresh_mapSet unfolding storeInv_def by simp
  ultimately show ?thesis
    using False unfolding storeInv_def snapEntryS_def snapBoundsToGridS_def keepWithinCanvasS_def Let_def
    by simp
qed

lemma fold_snapEntryS_inv:
  assumes "storeInv P h0 nb st" and "snapEnabled grid \<or> \<not> P nb"
    and "\<forall>e \<in> set es. length h0 \<le> snd e \<or> snd e = nb"
  shows "storeInv P h0 nb (fold (snapEntryS K grid) es st)"
  using assms
proof (induction es arbitrary: st)
  case Nil
  then show ?case by simp
next
  case (Cons e es)
  have "storeInv P h0 nb (snapEntryS K grid e st)"
    using snapEntryS_inv [OF Cons.prems(1,2)] Cons.prems(3) by simp
  then show ?case
    using Cons.IH Cons.prems(2,3) by simp
qed

lemma snapAllS_inv:
  assumes "storeInv P h0 nb st" and "snapEnabled grid \<or> \<not> P nb"
  shows "storeInv P h0 nb (snapAllS K grid st)"
  unfolding snapAllS_def
  using fold_snapEntryS_inv [OF assms, of "snd st"] assms(1)
  unfolding storeInv_def refsFresh_def by simp

lemma cleanupInnerS_inv:
  assumes "cleanupInnerS K grid room bnds other st = Some st'" and "storeInv P h0 nb (fst st)"
  shows "storeInv P h0 nb (fst st')"
proof (cases "st' = st")
  case True
  then show ?thesis using assms(2) by simp
next
  case False
  then obtain otherBounds where
    st': "st' =
      ((keepWithinCanvasS K
          (fst (snapBoundsToGridS K
                  (fst (alloc (cleanupShift grid (fst (fst st) ! bnds) (fst (fst st) ! otherBounds))
                         (fst (fst st))))
                  grid
                  (snd (alloc (cleanupShift grid (fst (fst st) ! bnds) (fst (fst st) ! otherBounds))
                         (fst (fst st))))))
          (snd (snapBoundsToGridS K
                  (fst (alloc (cleanupShift grid (fst (fst st) ! bnds) (fst (fst st) ! otherBounds))
                         (fst (fst st))))
                  grid
                  (snd (alloc (cleanupShift grid (fst (fst st) ! bnds) (fst (fst st) ! otherBounds))
                         (fst (fst st)))))),
        mapSet (room_id (o_fields room))
          (fst (snapBoundsToGridS K
                  (fst (alloc (cleanupShift grid (fst (fst st) ! bnds) (fst (fst st) ! otherBounds))
                         (fst (fst st))))
                  grid
                  (snd (alloc (cleanupShift grid (fst (fst st) ! bnds) (fst (fst st) ! otherBounds))
                         (fst (fst st))))))
          (snd (fst st))),
       True)"
    using assms(1) by (auto simp: cleanupInnerS_def Let_def split: if_splits option.splits)
  let ?nb = "alloc (cleanupShift grid (fst (fst st) ! bnds) (fst (fst st) ! otherBounds)) (fst (fst st))"
  let ?sn = "snapBoundsToGridS K (fst ?nb) grid (snd ?nb)"
  have f1: "framed P h0 (snd ?nb)" and g1: "length h0 \<le> fst ?nb"
    using assms(2) framed_alloc fresh_alloc unfolding storeInv_def by blast+
  have f2: "framed P h0 (snd ?sn)" and g2: "length h0 \<le> fst ?sn"
    using f1 g1 framed_alloc [OF f1] fresh_alloc [OF f1]
    unfolding snapBoundsToGridS_def by (auto split: if_splits)
  have "framed P h0 (keepWithinCanvasS K (fst ?sn) (snd ?sn))"
    unfolding keepWithinCanvasS_def using framed_write [OF f2] g2 by simp
  moreover have "refsFresh (length h0) nb (mapSet (room_id (o_fields room)) (fst ?sn) (snd (fst st)))"
    using assms(2) g2 refsFresh_mapSet unfolding storeInv_def by simp
  ultimately show ?thesis
    unfolding st' storeInv_def by simp
qed

lemma cleanupRoomS_inv:
  assumes "cleanupRoomS K grid movedRoomId rooms room st = Some st'" and "storeInv P h0 nb (fst st)"
  shows "storeInv P h0 nb (fst st')"
proof (cases "room_id (o_fields room) = movedRoomId \<or> isLocked (o_fields room)")
  case True
  then show ?thesis using assms by (auto simp: cleanupRoomS_def split: if_splits)
next
  case False
  then obtain bnds where "foldM (cleanupInnerS K grid room bnds) rooms st = Some st'"
    using assms(1) by (auto simp: cleanupRoomS_def split: option.splits)
  then show ?thesis
    by (rule foldM_preserves [where I = "\<lambda>st. storeInv P h0 nb (fst st)"])
       (auto intro: assms(2) cleanupInnerS_inv)
qed

lemma cleanupLoopS_inv:
  assumes "cleanupLoopS K grid movedRoomId rooms st hasOverlap safetyCounter = Some st'"
    and "storeInv P h0 nb st"
  shows "storeInv P h0 nb st'"
  using assms
proof (induction K grid movedRoomId rooms st hasOverlap safetyCounter rule: cleanupLoopS.induct)
  case (1 K grid movedRoomId rooms st hasOverlap safetyCounter)
  show ?case
  proof (cases "hasOverlap \<and> safetyCounter < 10")
    case False
    then show ?thesis using "1.prems" by (subst (asm) cleanupLoopS.simps) auto
  next
    case True
    then obtain res where res: "foldM (cleanupRoomS K grid movedRoomId rooms) rooms (st, False) = Some res"
      and rec: "cleanupLoopS K grid movedRoomId rooms (fst res) (snd res) (safetyCounter + 1) = Some st'"
      using "1.prems"(1) by (subst (asm) cleanupLoopS.simps) (auto split: option.splits)
    have "storeInv P h0 nb (fst res)"
      using res
      by (rule foldM_preserves [where I = "\<lambda>st. storeInv P h0 nb (fst st)"])
         (auto intro: "1.prems"(2) cleanupRoomS_inv)
    then show ?thesis
      using "1.IH" [OF True res rec] by simp
  qed
qed

text \<open>
  What every call respects: each object of the caller's store other than \<open>newBounds\<close>
  is left as it was (the boxes of the input rooms among them), and with snapping on
  \<open>newBounds\<close> is left as it was too.
\<close>

lemma applySpringNetworkS_frame:
  assumes "applySpringNetworkS K movedRoomId newBounds rooms grid iterations h0 = Some (result, h)"
    and "newBounds < length h0"
  shows "length h0 \<le> length h \<and>
         (\<forall>a < length h0. a \<noteq> newBounds \<longrightarrow> h ! a = h0 ! a) \<and>
         (snapEnabled grid \<longrightarrow> h ! newBounds = h0 ! newBounds)"
proof -
  have fr: "framed P h0 h" if P: "snapEnabled grid \<or> \<not> P newBounds" for P
  proof -
    let ?w0 = "copyBoundsS rooms (h0, [])"
    let ?w1 = "(fst ?w0, mapSet movedRoomId newBounds (snd ?w0))"
    have "storeInv P h0 newBounds (h0, [])"
      unfolding storeInv_def framed_def refsFresh_def by simp
    then have "storeInv P h0 newBounds ?w0"
      by (rule copyBoundsS_inv)
    then have i1: "storeInv P h0 newBounds ?w1"
      unfolding storeInv_def using refsFresh_mapSet by simp
    from assms(1) obtain st2 fin where
      s: "settleS movedRoomId rooms (buildConnectivityGraph (map (roomAt h0) rooms))
            (case buildConnectivityGraph (map (roomAt h0) rooms) movedRoomId of None \<Rightarrow> [] | Some cs \<Rightarrow> cs)
            iterations 0 ?w1 = Some st2" and
      c: "cleanupLoopS K grid movedRoomId rooms (snapAllS K grid st2) True 0 = Some fin" and
      h: "h = fst fin"
      unfolding applySpringNetworkS_def Let_def by (auto split: option.splits)
    have "storeInv P h0 newBounds st2"
      using s i1 by (rule settleS_inv)
    then have "storeInv P h0 newBounds (snapAllS K grid st2)"
      using P by (rule snapAllS_inv)
    with c have "storeInv P h0 newBounds fin"
      by (rule cleanupLoopS_inv)
    then show ?thesis
      unfolding storeInv_def h by simp
  qed
  have "framed (\<lambda>a. a \<noteq> newBounds) h0 h"
    by (rule fr) simp
  moreover have "snapEnabled grid \<Longrightarrow> framed (\<lambda>a. True) h0 h"
    by (rule fr) simp
  ultimately show ?thesis
    using assms(2) unfolding framed_def by auto
qed

text \<open>\<^verbatim>\<open>findNonOverlappingPosition\<close> works on a copy of \<^verbatim>\<open>desiredBounds\<close> and leaves every
  object of the caller's store as it was.\<close>

lemma nudgeS_frame:
  assumes "nudgeS K grid room allRooms st = Some st'"
    and "framed (\<lambda>a. True) h0 (snd st)" and "length h0 \<le> fst st"
  shows "framed (\<lambda>a. True) h0 (snd st') \<and> length h0 \<le> fst st'"
proof -
  from assms(1) obtain other :: RoomObj where
    st': "st' = (fst (snapBoundsToGridS K (fst st) grid
                       ((snd st)[fst st := nudgeShift (snd st ! fst st) (snd st ! o_bounds other)])),
                 keepWithinCanvasS K
                   (fst (snapBoundsToGridS K (fst st) grid
                       ((snd st)[fst st := nudgeShift (snd st ! fst st) (snd st ! o_bounds other)])))
                   (snd (snapBoundsToGridS K (fst st) grid
                       ((snd st)[fst st := nudgeShift (snd st ! fst st) (snd st ! o_bounds other)]))))"
    by (auto simp: nudgeS_def Let_def split: option.splits)
  let ?h1 = "(snd st)[fst st := nudgeShift (snd st ! fst st) (snd st ! o_bounds other)]"
  let ?sn = "snapBoundsToGridS K (fst st) grid ?h1"
  have f1: "framed (\<lambda>a. True) h0 ?h1"
    using framed_write [OF assms(2)] assms(3) by simp
  have f2: "framed (\<lambda>a. True) h0 (snd ?sn)" and g2: "length h0 \<le> fst ?sn"
    using f1 assms(3) framed_alloc [OF f1] fresh_alloc [OF f1]
    unfolding snapBoundsToGridS_def by (auto split: if_splits)
  have "framed (\<lambda>a. True) h0 (keepWithinCanvasS K (fst ?sn) (snd ?sn))"
    unfolding keepWithinCanvasS_def using framed_write [OF f2] g2 by simp
  with g2 show ?thesis
    unfolding st' by simp
qed

lemma nudgeLoopS_frame:
  assumes "framed (\<lambda>a. True) h0 (snd st)" and "length h0 \<le> fst st"
  shows "framed (\<lambda>a. True) h0 (snd (nudgeLoopS K grid room allRooms maxIterations i st))"
  using assms
proof (induction K grid room allRooms maxIterations i st rule: nudgeLoopS.induct)
  case (1 K grid room allRooms maxIterations i st)
  show ?case
  proof (cases "real i < maxIterations")
    case False
    then show ?thesis using "1.prems"(1) by (subst nudgeLoopS.simps) simp
  next
    case True
    show ?thesis
    proof (cases "nudgeS K grid room allRooms st")
      case None
      then show ?thesis using True "1.prems"(1) by (subst nudgeLoopS.simps) simp
    next
      case (Some st')
      from nudgeS_frame [OF Some "1.prems"] "1.IH" [OF True Some]
      show ?thesis
        using True Some by (subst nudgeLoopS.simps) simp
    qed
  qed
qed

lemma findNonOverlappingPositionS_frame:
  "\<forall>a < length h0.
     snd (findNonOverlappingPositionS K room desiredBounds allRooms grid maxIterations h0) ! a = h0 ! a"
proof -
  have "framed (\<lambda>a. True) h0 (snd (alloc (h0 ! desiredBounds) h0))"
    and "length h0 \<le> fst (alloc (h0 ! desiredBounds) h0)"
    unfolding framed_def alloc_def by (simp_all add: nth_append)
  then have "framed (\<lambda>a. True) h0
       (snd (findNonOverlappingPositionS K room desiredBounds allRooms grid maxIterations h0))"
    unfolding findNonOverlappingPositionS_def by (rule nudgeLoopS_frame)
  then show ?thesis
    unfolding framed_def by simp
qed

section \<open>The store model and the value model agree\<close>

lemma map_of_mapSet: "map_of (mapSet k v wb) = (map_of wb)(k \<mapsto> v)"
  by (induction wb) (auto simp: fun_eq_iff)

lemma set_mapSet: "set (mapSet k v wb) \<subseteq> insert (k, v) (set wb)"
  by (induction wb) auto

lemma keys_mapSet: "fst ` set (mapSet k v wb) = insert k (fst ` set wb)"
  by (induction wb) auto

lemma distinct_keys_mapSet: "distinct (map fst wb) \<Longrightarrow> distinct (map fst (mapSet k v wb))"
proof (induction wb)
  case Nil
  then show ?case by simp
next
  case (Cons e wb)
  show ?case
  proof (cases "fst e = k")
    case True
    then show ?thesis using Cons.prems by simp
  next
    case False
    then show ?thesis using Cons keys_mapSet [of k v wb] by auto
  qed
qed

lemma distinct_refs_mapSet:
  "distinct (map snd wb) \<Longrightarrow> v \<notin> snd ` set wb \<Longrightarrow> distinct (map snd (mapSet k v wb))"
proof (induction wb)
  case Nil
  then show ?case by simp
next
  case (Cons e wb)
  show ?case
  proof (cases "fst e = k")
    case True
    then show ?thesis using Cons.prems by auto
  next
    case False
    have "snd e \<notin> snd ` set (mapSet k v wb)"
      using Cons.prems set_mapSet [of k v wb] by auto
    then show ?thesis using False Cons by auto
  qed
qed

text \<open>A step that extends the store, leaves the old objects alone and binds a key to a
  new object.\<close>

lemma storeView_extend_set:
  assumes "\<forall>e \<in> set wb. snd e < length h"
    and "\<forall>a < length h. h' ! a = h ! a"
  shows "storeView (h', mapSet k n wb) = (storeView (h, wb))(k \<mapsto> h' ! n)"
proof
  fix k'
  show "storeView (h', mapSet k n wb) k' = ((storeView (h, wb))(k \<mapsto> h' ! n)) k'"
  proof (cases "k' = k")
    case True
    then show ?thesis
      by (simp add: storeView_def boundsView_def map_of_mapSet)
  next
    case False
    show ?thesis
    proof (cases "map_of wb k'")
      case None
      then show ?thesis using False by (simp add: storeView_def boundsView_def map_of_mapSet)
    next
      case (Some a)
      then have "a < length h"
        using assms(1) by (metis map_of_SomeD snd_conv)
      then show ?thesis
        using False Some assms(2) by (simp add: storeView_def boundsView_def map_of_mapSet)
    qed
  qed
qed

lemma simInv_extend_set:
  assumes "simInv P h0 nb (h, wb)"
    and "length h \<le> length h'" and "\<forall>a < length h. h' ! a = h ! a"
    and "length h \<le> n" and "n < length h'"
  shows "simInv P h0 nb (h', mapSet k n wb)"
proof -
  have fr: "framed P h0 h" and rf: "refsFresh (length h0) nb wb"
    and vr: "\<forall>e \<in> set wb. snd e < length h"
    and dk: "distinct (map fst wb)" and dr: "distinct (map snd wb)"
    using assms(1) unfolding simInv_def storeInv_def by simp_all
  have "framed P h0 h'"
    using fr assms(2,3) unfolding framed_def by auto
  moreover have "refsFresh (length h0) nb (mapSet k n wb)"
    using rf fr assms(4) refsFresh_mapSet unfolding framed_def by simp
  moreover have "\<forall>e \<in> set (mapSet k n wb). snd e < length h'"
    using vr assms(2,5) set_mapSet [of k n wb] by fastforce
  moreover have "distinct (map fst (mapSet k n wb))"
    using dk by (rule distinct_keys_mapSet)
  moreover have "n \<notin> snd ` set wb"
    using vr assms(4) by fastforce
  then have "distinct (map snd (mapSet k n wb))"
    using dr distinct_refs_mapSet by simp
  ultimately show ?thesis
    unfolding simInv_def storeInv_def by simp
qed

lemma storeView_alloc:
  assumes "simInv P h0 nb st"
  shows "storeView (snd (alloc b (fst st)), mapSet k (fst (alloc b (fst st))) (snd st)) =
           (storeView st)(k \<mapsto> b)"
  using storeView_extend_set [of "snd st" "fst st" "fst st @ [b]" k "length (fst st)"] assms
  unfolding simInv_def alloc_def by (simp add: nth_append)

lemma simInv_alloc:
  assumes "simInv P h0 nb st"
  shows "simInv P h0 nb (snd (alloc b (fst st)), mapSet k (fst (alloc b (fst st))) (snd st))"
  using simInv_extend_set [of P h0 nb "fst st" "snd st" "fst st @ [b]" "length (fst st)" k] assms
  unfolding alloc_def by (simp add: nth_append)

lemma storeView_lookup: "storeView st k = map_option (\<lambda>a. fst st ! a) (map_of (snd st) k)"
  by (simp add: storeView_def boundsView_def)

lemma roomAt_framed:
  "framed P h0 h \<Longrightarrow> o_bounds r < length h0 \<Longrightarrow> P (o_bounds r) \<Longrightarrow> roomAt h r = roomAt h0 r"
  unfolding framed_def roomAt_def by simp

lemma find_map_room:
  "find (\<lambda>r. room_id r = k) (map (roomAt h) rooms) =
     map_option (roomAt h) (find (\<lambda>r. room_id (o_fields r) = k) rooms)"
  by (induction rooms) (auto simp: roomAt_def)

lemma foldM_sim:
  assumes "J s"
    and "\<And>x s. x \<in> set xs \<Longrightarrow> J s \<Longrightarrow>
           fV (g x) (vw s) = map_option vw (fS x s) \<and> (\<forall>s'. fS x s = Some s' \<longrightarrow> J s')"
  shows "foldM fV (map g xs) (vw s) = map_option vw (foldM fS xs s) \<and>
         (\<forall>s'. foldM fS xs s = Some s' \<longrightarrow> J s')"
  using assms
proof (induction xs arbitrary: s)
  case Nil
  then show ?case by simp
next
  case (Cons x xs)
  have step: "fV (g x) (vw s) = map_option vw (fS x s)" and keep: "\<forall>s'. fS x s = Some s' \<longrightarrow> J s'"
    using Cons.prems(2) [of x s] Cons.prems(1) by simp_all
  show ?case
  proof (cases "fS x s")
    case None
    then show ?thesis using step by simp
  next
    case (Some s1)
    then have "J s1" using keep by simp
    then have "foldM fV (map g xs) (vw s1) = map_option vw (foldM fS xs s1) \<and>
         (\<forall>s'. foldM fS xs s1 = Some s' \<longrightarrow> J s')"
    proof (rule Cons.IH)
      fix y s
      assume "y \<in> set xs" and "J s"
      then show "fV (g y) (vw s) = map_option vw (fS y s) \<and> (\<forall>s'. fS y s = Some s' \<longrightarrow> J s')"
        using Cons.prems(2) [of y s] by simp
    qed
    then show ?thesis using Some step by simp
  qed
qed

lemma isLocked_roomAt: "isLocked (roomAt h r) = isLocked (o_fields r)"
  and room_id_roomAt: "room_id (roomAt h r) = room_id (o_fields r)"
  by (simp_all add: roomAt_def)

lemma find_room_obj:
  "find (\<lambda>r. room_id (o_fields r) = k) rooms = Some cr \<Longrightarrow> cr \<in> set rooms"
  by (auto simp: find_Some_iff)

lemma attractStep_sim:
  assumes J: "simInv P h0 nb st"
    and R: "\<forall>r \<in> set rooms. o_bounds r < length h0 \<and> P (o_bounds r)"
  shows "attractStep m (map (roomAt h0) rooms) c (storeView st) =
           map_option storeView (attractStepS m rooms c st) \<and>
         (\<forall>st'. attractStepS m rooms c st = Some st' \<longrightarrow> simInv P h0 nb st')"
proof (cases "find (\<lambda>r. room_id (o_fields r) = roomId c) rooms")
  case None
  then show ?thesis
    using J by (auto simp: attractStep_def attractStepS_def find_map_room)
next
  case (Some cr)
  then have "cr \<in> set rooms" by (rule find_room_obj)
  then have same: "roomAt (fst st) cr = roomAt h0 cr"
    using J R roomAt_framed unfolding simInv_def storeInv_def by blast
  show ?thesis
    using Some J same storeView_alloc [OF J] simInv_alloc [OF J]
    by (auto simp: attractStep_def attractStepS_def find_map_room isLocked_roomAt storeView_lookup Let_def
             split: option.splits)
qed

lemma secondaryStep_sim:
  assumes J: "simInv P h0 nb st"
    and R: "\<forall>r \<in> set rooms. o_bounds r < length h0 \<and> P (o_bounds r)"
  shows "secondaryStep m (map (roomAt h0) rooms) c s (storeView st) =
           map_option storeView (secondaryStepS m rooms c s st) \<and>
         (\<forall>st'. secondaryStepS m rooms c s st = Some st' \<longrightarrow> simInv P h0 nb st')"
proof (cases "find (\<lambda>r. room_id (o_fields r) = roomId s) rooms")
  case None
  then show ?thesis
    using J by (auto simp: secondaryStep_def secondaryStepS_def find_map_room)
next
  case (Some sr)
  then have "sr \<in> set rooms" by (rule find_room_obj)
  then have same: "roomAt (fst st) sr = roomAt h0 sr"
    using J R roomAt_framed unfolding simInv_def storeInv_def by blast
  show ?thesis
    using Some J same storeView_alloc [OF J] simInv_alloc [OF J]
    by (auto simp: secondaryStep_def secondaryStepS_def find_map_room isLocked_roomAt storeView_lookup Let_def
             split: option.splits)
qed

lemma secondaryPass_sim:
  assumes J: "simInv P h0 nb st"
    and R: "\<forall>r \<in> set rooms. o_bounds r < length h0 \<and> P (o_bounds r)"
  shows "secondaryPass m (map (roomAt h0) rooms) g c (storeView st) =
           map_option storeView (secondaryPassS m rooms g c st) \<and>
         (\<forall>st'. secondaryPassS m rooms g c st = Some st' \<longrightarrow> simInv P h0 nb st')"
  unfolding secondaryPass_def secondaryPassS_def Let_def
  using foldM_sim [of "simInv P h0 nb" st _ "secondaryStep m (map (roomAt h0) rooms) c" "\<lambda>x. x"
                      storeView "secondaryStepS m rooms c"]
        secondaryStep_sim [OF _ R] J
  by simp

lemma repelStep_sim:
  assumes J: "simInv P h0 nb st"
    and R: "\<forall>r \<in> set rooms. o_bounds r < length h0 \<and> P (o_bounds r)"
    and room: "room \<in> set rooms"
  shows "repelStep m (map (roomAt h0) rooms) (roomAt h0 room) (storeView st) =
           map_option storeView (repelStepS m rooms room st) \<and>
         (\<forall>st'. repelStepS m rooms room st = Some st' \<longrightarrow> simInv P h0 nb st')"
proof -
  have same: "roomAt (fst st) r = roomAt h0 r" if "r \<in> set rooms" for r
    using that J R roomAt_framed unfolding simInv_def storeInv_def by blast
  then have maps: "map (roomAt (fst st)) rooms = map (roomAt h0) rooms"
    by simp
  have view: "boundsView (fst st) (snd st) = storeView st"
    by (simp add: storeView_def)
  have S: "repelStepS m rooms room st =
     (if room_id (o_fields room) = m then Some st
      else if isLocked (o_fields room) then Some st
      else
        (case map_of (snd st) (room_id (o_fields room)) of
           None \<Rightarrow> None
         | Some bnds \<Rightarrow>
             (case foldM (repelAccum (storeView st) (roomAt h0 room) (fst st ! bnds))
                         (map (roomAt h0) rooms) (0, 0) of
                None \<Rightarrow> None
              | Some adjust \<Rightarrow>
                  if fst adjust \<noteq> 0 \<or> snd adjust \<noteq> 0
                  then Some (snd (alloc ((fst st ! bnds)\<lparr>b_x := b_x (fst st ! bnds) + fst adjust,
                                                           b_y := b_y (fst st ! bnds) + snd adjust\<rparr>) (fst st)),
                             mapSet (room_id (o_fields room))
                               (fst (alloc ((fst st ! bnds)\<lparr>b_x := b_x (fst st ! bnds) + fst adjust,
                                                              b_y := b_y (fst st ! bnds) + snd adjust\<rparr>) (fst st)))
                               (snd st))
                  else Some st)))"
    unfolding repelStepS_def Let_def maps view same [OF room] ..
  show ?thesis
    unfolding S
    using J storeView_alloc [OF J] simInv_alloc [OF J]
    by (auto simp: repelStep_def room_id_roomAt isLocked_roomAt storeView_lookup
             split: option.splits)
qed


lemma settle_sim:
  assumes "simInv P h0 nb st"
    and R: "\<forall>r \<in> set rooms. o_bounds r < length h0 \<and> P (o_bounds r)"
  shows "settle m (map (roomAt h0) rooms) g dc iterations iter (storeView st) =
           map_option storeView (settleS m rooms g dc iterations iter st) \<and>
         (\<forall>st'. settleS m rooms g dc iterations iter st = Some st' \<longrightarrow> simInv P h0 nb st')"
  using assms
proof (induction m rooms g dc iterations iter st rule: settleS.induct)
  case (1 m rooms g dc iterations iter st)
  note R = "1.prems"(2)
  let ?V = "map (roomAt h0) rooms"
  show ?case
  proof (cases "real iter < iterations")
    case False
    then show ?thesis
      using "1.prems"(1) by (simp add: settle.simps [of m ?V] settleS.simps [of m rooms])
  next
    case True
    have A: "foldM (attractStep m ?V) dc (storeView st) =
               map_option storeView (foldM (attractStepS m rooms) dc st) \<and>
             (\<forall>s'. foldM (attractStepS m rooms) dc st = Some s' \<longrightarrow> simInv P h0 nb s')"
      using foldM_sim [of "simInv P h0 nb" st dc "attractStep m ?V" "\<lambda>x. x" storeView
                          "attractStepS m rooms"]
            attractStep_sim [OF _ R] "1.prems"(1)
      by simp
    show ?thesis
    proof (cases "foldM (attractStepS m rooms) dc st")
      case None
      then show ?thesis
        using True A by (simp add: settle.simps [of m ?V] settleS.simps [of m rooms])
    next
      case (Some st1)
      then have J1: "simInv P h0 nb st1" using A by simp
      have B: "foldM (repelStep m ?V) ?V (storeView st1) =
               map_option storeView (foldM (repelStepS m rooms) rooms st1) \<and>
             (\<forall>s'. foldM (repelStepS m rooms) rooms st1 = Some s' \<longrightarrow> simInv P h0 nb s')"
        using foldM_sim [of "simInv P h0 nb" st1 rooms "repelStep m ?V" "roomAt h0" storeView
                            "repelStepS m rooms"]
              repelStep_sim [OF _ R] J1
        by simp
      show ?thesis
      proof (cases "foldM (repelStepS m rooms) rooms st1")
        case None
        then show ?thesis
          using True A B Some by (simp add: settle.simps [of m ?V] settleS.simps [of m rooms])
      next
        case st2: (Some st2)
        then have J2: "simInv P h0 nb st2" using B by simp
        let ?thirdS = "if iter < 3 then foldM (secondaryPassS m rooms g) dc st2 else Some st2"
        let ?thirdV = "if iter < 3 then foldM (secondaryPass m ?V g) dc (storeView st2)
                       else Some (storeView st2)"
        have C: "?thirdV = map_option storeView ?thirdS \<and>
                 (\<forall>s'. ?thirdS = Some s' \<longrightarrow> simInv P h0 nb s')"
          using foldM_sim [of "simInv P h0 nb" st2 dc "secondaryPass m ?V g" "\<lambda>x. x" storeView
                              "secondaryPassS m rooms g"]
                secondaryPass_sim [OF _ R] J2
          by auto
        show ?thesis
        proof (cases ?thirdS)
          case None
          then show ?thesis
            using True A B C Some st2
            by (simp add: settle.simps [of m ?V] settleS.simps [of m rooms])
        next
          case st3: (Some st3)
          then have J3: "simInv P h0 nb st3" using C by simp
          from "1.IH" [OF True Some st2 st3 J3 R]
          show ?thesis
            using True A B C Some st2 st3
            by (simp add: settle.simps [of m ?V] settleS.simps [of m rooms])
        qed
      qed
    qed
  qed
qed


lemma mapSet_same:
  "distinct (map fst wb) \<Longrightarrow> (k, a) \<in> set wb \<Longrightarrow> mapSet k a wb = wb"
proof (induction wb)
  case Nil
  then show ?case by simp
next
  case (Cons e wb)
  show ?case
  proof (cases "fst e = k")
    case True
    then have "e = (k, a)"
      using Cons.prems by (cases e) (auto simp: rev_image_eqI)
    then show ?thesis by simp
  next
    case False
    then show ?thesis using Cons by auto
  qed
qed

lemma mapSet_keeps_others:
  "e' \<in> set wb \<Longrightarrow> fst e' \<noteq> k \<Longrightarrow> e' \<in> set (mapSet k v wb)"
  by (induction wb) auto

lemma entry_lookup:
  "distinct (map fst wb) \<Longrightarrow> e \<in> set wb \<Longrightarrow> map_of wb (fst e) = Some (snd e)"
  by (cases e) simp

lemma ref_owner:
  assumes "distinct (map snd wb)" and "e \<in> set wb" and "e' \<in> set wb" and "snd e' = snd e"
  shows "e' = e"
  using assms by (meson distinct_map inj_onD)

lemma snapEntryS_sim:
  assumes J: "simInv P h0 nb st" and en: "snapEnabled grid \<or> \<not> P nb" and e: "e \<in> set (snd st)"
  shows "simInv P h0 nb (snapEntryS K grid e st) \<and>
         storeView (snapEntryS K grid e st) =
           (storeView st)(fst e \<mapsto> keepWithinCanvas K (snapBoundsToGrid K (fst st ! snd e) grid)) \<and>
         (\<forall>e' \<in> set (snd st). fst e' \<noteq> fst e \<longrightarrow> e' \<in> set (snd (snapEntryS K grid e st)))"
proof (cases "snapEnabled grid")
  case True
  let ?v = "keepWithinCanvas K (snapBoundsToGrid K (fst st ! snd e) grid)"
  let ?h' = "fst st @ [?v]"
  have eq: "snapEntryS K grid e st = (?h', mapSet (fst e) (length (fst st)) (snd st))"
    using True
    by (simp add: snapEntryS_def snapBoundsToGridS_def keepWithinCanvasS_def alloc_def Let_def
                  list_update_append)
  have vr: "\<forall>e \<in> set (snd st). snd e < length (fst st)"
    using J unfolding simInv_def by simp
  have "simInv P h0 nb (?h', mapSet (fst e) (length (fst st)) (snd st))"
    using simInv_extend_set [of P h0 nb "fst st" "snd st" ?h' "length (fst st)" "fst e"] J
    by (simp add: nth_append)
  moreover have "storeView (?h', mapSet (fst e) (length (fst st)) (snd st)) =
                   (storeView st)(fst e \<mapsto> ?v)"
    using storeView_extend_set [of "snd st" "fst st" ?h' "fst e" "length (fst st)"] vr
    by (simp add: nth_append)
  ultimately show ?thesis
    unfolding eq using mapSet_keeps_others by simp
next
  case False
  let ?v = "keepWithinCanvas K (fst st ! snd e)"
  have dk: "distinct (map fst (snd st))" and dr: "distinct (map snd (snd st))"
    and vr: "\<forall>e \<in> set (snd st). snd e < length (fst st)"
    and si: "storeInv P h0 nb st"
    using J unfolding simInv_def by simp_all
  have same: "mapSet (fst e) (snd e) (snd st) = snd st"
    using mapSet_same [OF dk, of "fst e" "snd e"] e by simp
  have eq: "snapEntryS K grid e st = ((fst st)[snd e := ?v], snd st)"
    using False same
    by (simp add: snapEntryS_def snapBoundsToGridS_def keepWithinCanvasS_def Let_def)
  have fresh: "length h0 \<le> snd e \<or> snd e = nb"
    using si e unfolding storeInv_def refsFresh_def by simp
  have "storeInv P h0 nb (snapEntryS K grid e st)"
    using snapEntryS_inv [OF si en fresh] .
  then have inv: "simInv P h0 nb ((fst st)[snd e := ?v], snd st)"
    using dk dr vr unfolding eq simInv_def by simp
  have view: "storeView ((fst st)[snd e := ?v], snd st) k = ((storeView st)(fst e \<mapsto> ?v)) k" for k
  proof (cases "k = fst e")
    case True
    then show ?thesis
      using entry_lookup [OF dk e] vr e by (simp add: storeView_lookup)
  next
    case nk: False
    show ?thesis
    proof (cases "map_of (snd st) k")
      case None
      then show ?thesis using nk by (simp add: storeView_lookup)
    next
      case (Some a)
      then have in_wb: "(k, a) \<in> set (snd st)"
        by (rule map_of_SomeD)
      have "a \<noteq> snd e"
      proof
        assume "a = snd e"
        then have "(k, a) = e"
          using ref_owner [OF dr e in_wb] by simp
        then show False
          using nk by auto
      qed
      then show ?thesis
        using nk Some by (simp add: storeView_lookup)
    qed
  qed
  have "snapBoundsToGrid K (fst st ! snd e) grid = fst st ! snd e"
    using False by (simp add: snapBoundsToGrid_def)
  then show ?thesis
    unfolding eq using inv view by auto
qed

lemma fold_snapEntryS_sim:
  assumes "simInv P h0 nb st" and "snapEnabled grid \<or> \<not> P nb"
    and "set es \<subseteq> set (snd st)" and "distinct (map fst es)"
  shows "simInv P h0 nb (fold (snapEntryS K grid) es st) \<and>
         (\<forall>k. storeView (fold (snapEntryS K grid) es st) k =
                (if k \<in> fst ` set es
                 then map_option (\<lambda>b. keepWithinCanvas K (snapBoundsToGrid K b grid)) (storeView st k)
                 else storeView st k))"
  using assms
proof (induction es arbitrary: st)
  case Nil
  then show ?case by simp
next
  case (Cons e es)
  let ?st1 = "snapEntryS K grid e st"
  have e: "e \<in> set (snd st)"
    using Cons.prems(3) by simp
  have dk: "distinct (map fst (snd st))"
    using Cons.prems(1) unfolding simInv_def by simp
  note step = snapEntryS_sim [OF Cons.prems(1,2) e, of K]
  have sub: "set es \<subseteq> set (snd ?st1)"
  proof
    fix e'
    assume e': "e' \<in> set es"
    then have "fst e' \<in> fst ` set es"
      by (rule imageI)
    moreover have "fst e \<notin> fst ` set es"
      using Cons.prems(4) by simp
    ultimately have "fst e' \<noteq> fst e"
      by metis
    moreover have "e' \<in> set (snd st)"
      using e' Cons.prems(3) by auto
    ultimately have "e' \<in> set (snd st)" and "fst e' \<noteq> fst e"
      by simp_all
    then show "e' \<in> set (snd ?st1)"
      using step by blast
  qed
  have dist: "distinct (map fst es)"
    using Cons.prems(4) by simp
  have ih: "simInv P h0 nb (fold (snapEntryS K grid) es ?st1) \<and>
         (\<forall>k. storeView (fold (snapEntryS K grid) es ?st1) k =
                (if k \<in> fst ` set es
                 then map_option (\<lambda>b. keepWithinCanvas K (snapBoundsToGrid K b grid)) (storeView ?st1 k)
                 else storeView ?st1 k))"
    using Cons.IH [of ?st1] step Cons.prems(2) sub dist by blast
  have here: "storeView st (fst e) = Some (fst st ! snd e)"
    using entry_lookup [OF dk e] by (simp add: storeView_lookup)
  have notin: "fst e \<notin> fst ` set es"
    using Cons.prems(4) by simp
  show ?case
    using ih step here notin by auto
qed

lemma snapAll_sim:
  assumes "simInv P h0 nb st" and "snapEnabled grid \<or> \<not> P nb"
  shows "storeView (snapAllS K grid st) = snapAll K grid (storeView st) \<and>
         simInv P h0 nb (snapAllS K grid st)"
proof -
  have dk: "distinct (map fst (snd st))"
    using assms(1) unfolding simInv_def by simp
  note f = fold_snapEntryS_sim [OF assms, of "snd st" K]
  have "storeView (snapAllS K grid st) k = snapAll K grid (storeView st) k" for k
  proof (cases "k \<in> fst ` set (snd st)")
    case True
    then show ?thesis
      using f dk unfolding snapAllS_def snapAll_def by simp
  next
    case False
    then have "map_of (snd st) k = None"
      by (simp add: map_of_eq_None_iff)
    then show ?thesis
      using f dk False unfolding snapAllS_def snapAll_def by (simp add: storeView_lookup)
  qed
  then show ?thesis
    using f dk unfolding snapAllS_def by auto
qed


text \<open>The object a room is pushed to in the cleanup loop: allocated, snapped, clamped.\<close>

lemma push_object:
  fixes h :: Heap and v :: BoundingBox and K :: EditorConsts and grid :: GridConfig
  defines "newBounds \<equiv> alloc v h"
  defines "snapped \<equiv> snapBoundsToGridS K (fst newBounds) grid (snd newBounds)"
  defines "h3 \<equiv> keepWithinCanvasS K (fst snapped) (snd snapped)"
  shows "length h \<le> fst snapped \<and> fst snapped < length h3 \<and> length h \<le> length h3 \<and>
         (\<forall>a < length h. h3 ! a = h ! a) \<and>
         h3 ! fst snapped = keepWithinCanvas K (snapBoundsToGrid K v grid)"
proof (cases "snapEnabled grid")
  case True
  then show ?thesis
    unfolding h3_def snapped_def newBounds_def
    by (simp add: snapBoundsToGridS_def keepWithinCanvasS_def alloc_def nth_append)
next
  case False
  then show ?thesis
    unfolding h3_def snapped_def newBounds_def
    by (simp add: snapBoundsToGridS_def keepWithinCanvasS_def alloc_def nth_append
                  snapBoundsToGrid_def)
qed

lemma cleanupInner_sim:
  assumes J: "simInv P h0 nb (fst st)"
    and fr: "framed (\<lambda>a. True) hs (fst (fst st))" and br: "bref < length hs"
  shows "cleanupInner K grid (roomAt h0 room) (hs ! bref) (roomAt h0 other) (cleanupView st) =
           map_option cleanupView (cleanupInnerS K grid room bref other st) \<and>
         (\<forall>st'. cleanupInnerS K grid room bref other st = Some st' \<longrightarrow>
                simInv P h0 nb (fst st') \<and> framed (\<lambda>a. True) hs (fst (fst st')))"
proof (cases "room_id (o_fields other) = room_id (o_fields room)")
  case True
  then show ?thesis
    using J fr by (simp add: cleanupInner_def cleanupInnerS_def room_id_roomAt)
next
  case ne: False
  show ?thesis
  proof (cases "map_of (snd (fst st)) (room_id (o_fields other))")
    case None
    then show ?thesis
      using ne
      by (simp add: cleanupInner_def cleanupInnerS_def cleanupView_def room_id_roomAt storeView_lookup)
  next
    case (Some oref)
    let ?h = "fst (fst st)" and ?wb = "snd (fst st)"
    have cur: "?h ! bref = hs ! bref"
      using fr br unfolding framed_def by simp
    show ?thesis
    proof (cases "boundsOverlap (hs ! bref) (?h ! oref)")
      case False
      then show ?thesis
        using ne Some cur J fr
        by (simp add: cleanupInner_def cleanupInnerS_def cleanupView_def room_id_roomAt storeView_lookup)
    next
      case True
      let ?v = "cleanupShift grid (hs ! bref) (?h ! oref)"
      let ?nb = "alloc ?v ?h"
      let ?sn = "snapBoundsToGridS K (fst ?nb) grid (snd ?nb)"
      let ?h3 = "keepWithinCanvasS K (fst ?sn) (snd ?sn)"
      note po = push_object [where h = ?h and v = ?v and K = K and grid = grid]
      have res: "cleanupInnerS K grid room bref other st =
                   Some ((?h3, mapSet (room_id (o_fields room)) (fst ?sn) ?wb), True)"
        using ne Some cur True by (simp add: cleanupInnerS_def Let_def)
      have vr: "\<forall>e \<in> set ?wb. snd e < length ?h"
        using J unfolding simInv_def by simp
      have view: "storeView (?h3, mapSet (room_id (o_fields room)) (fst ?sn) ?wb) =
                    (storeView (fst st))(room_id (o_fields room) \<mapsto> cleanupPush K grid (hs ! bref) (?h ! oref))"
        using storeView_extend_set [of ?wb ?h ?h3 "room_id (o_fields room)" "fst ?sn"] vr po
        by (simp add: cleanupPush_def)
      have inv: "simInv P h0 nb (?h3, mapSet (room_id (o_fields room)) (fst ?sn) ?wb)"
        using simInv_extend_set [of P h0 nb ?h ?wb ?h3 "fst ?sn" "room_id (o_fields room)"] J po
        by simp
      have fr3: "framed (\<lambda>a. True) hs ?h3"
        using fr po unfolding framed_def by auto
      have V: "cleanupInner K grid (roomAt h0 room) (hs ! bref) (roomAt h0 other) (cleanupView st) =
                 Some ((storeView (fst st))(room_id (o_fields room) \<mapsto>
                          cleanupPush K grid (hs ! bref) (?h ! oref)), True)"
        using ne Some True
        by (simp add: cleanupInner_def cleanupView_def room_id_roomAt storeView_lookup)
      show ?thesis
        unfolding res V using view inv fr3 by (simp add: cleanupView_def)
    qed
  qed
qed

lemma cleanupRoom_sim:
  assumes J: "simInv P h0 nb (fst st)"
  shows "cleanupRoom K grid m (map (roomAt h0) rooms) (roomAt h0 room) (cleanupView st) =
           map_option cleanupView (cleanupRoomS K grid m rooms room st) \<and>
         (\<forall>st'. cleanupRoomS K grid m rooms room st = Some st' \<longrightarrow> simInv P h0 nb (fst st'))"
proof (cases "room_id (o_fields room) = m \<or> isLocked (o_fields room)")
  case True
  then show ?thesis
    using J by (auto simp: cleanupRoom_def cleanupRoomS_def room_id_roomAt isLocked_roomAt)
next
  case False
  show ?thesis
  proof (cases "map_of (snd (fst st)) (room_id (o_fields room))")
    case None
    then show ?thesis
      using False
      by (simp add: cleanupRoom_def cleanupRoomS_def cleanupView_def room_id_roomAt isLocked_roomAt
                    storeView_lookup)
  next
    case (Some bref)
    let ?hs = "fst (fst st)"
    have br: "bref < length ?hs"
      using J Some unfolding simInv_def by (metis map_of_SomeD snd_conv)
    have fr: "framed (\<lambda>a. True) ?hs ?hs"
      unfolding framed_def by simp
    let ?J = "\<lambda>s. simInv P h0 nb (fst s) \<and> framed (\<lambda>a. True) ?hs (fst (fst s))"
    have inner: "foldM (cleanupInner K grid (roomAt h0 room) (?hs ! bref)) (map (roomAt h0) rooms)
                   (cleanupView st) =
                 map_option cleanupView (foldM (cleanupInnerS K grid room bref) rooms st) \<and>
                 (\<forall>s'. foldM (cleanupInnerS K grid room bref) rooms st = Some s' \<longrightarrow> ?J s')"
    proof (rule foldM_sim [where J = ?J])
      show "?J st" using J fr by simp
    next
      fix x and s :: "(Heap \<times> BoundsMap) \<times> bool"
      assume "?J s"
      then show "cleanupInner K grid (roomAt h0 room) (?hs ! bref) (roomAt h0 x) (cleanupView s) =
                   map_option cleanupView (cleanupInnerS K grid room bref x s) \<and>
                 (\<forall>s'. cleanupInnerS K grid room bref x s = Some s' \<longrightarrow> ?J s')"
        using cleanupInner_sim [OF _ _ br, of P h0 nb s] by blast
    qed
    have V: "cleanupRoom K grid m (map (roomAt h0) rooms) (roomAt h0 room) (cleanupView st) =
               foldM (cleanupInner K grid (roomAt h0 room) (?hs ! bref)) (map (roomAt h0) rooms)
                   (cleanupView st)"
      using False Some
      by (simp add: cleanupRoom_def cleanupView_def room_id_roomAt isLocked_roomAt storeView_lookup)
    have S: "cleanupRoomS K grid m rooms room st = foldM (cleanupInnerS K grid room bref) rooms st"
      using False Some by (simp add: cleanupRoomS_def)
    show ?thesis
      unfolding V S using inner by blast
  qed
qed

lemma cleanupLoop_sim:
  assumes "simInv P h0 nb st"
  shows "map_option fst (cleanupLoop K grid m (map (roomAt h0) rooms) (storeView st) hasOverlap safetyCounter) =
           map_option storeView (cleanupLoopS K grid m rooms st hasOverlap safetyCounter) \<and>
         (\<forall>st'. cleanupLoopS K grid m rooms st hasOverlap safetyCounter = Some st' \<longrightarrow>
                simInv P h0 nb st')"
  using assms
proof (induction K grid m rooms st hasOverlap safetyCounter rule: cleanupLoopS.induct)
  case (1 K grid m rooms st hasOverlap safetyCounter)
  let ?V = "map (roomAt h0) rooms"
  show ?case
  proof (cases "hasOverlap \<and> safetyCounter < 10")
    case False
    have "cleanupLoop K grid m ?V (storeView st) hasOverlap safetyCounter =
            Some (storeView st, hasOverlap, safetyCounter)"
      using False by (subst cleanupLoop.simps) auto
    moreover have "cleanupLoopS K grid m rooms st hasOverlap safetyCounter = Some st"
      using False by (subst cleanupLoopS.simps) auto
    ultimately show ?thesis
      using "1.prems" by simp
  next
    case True
    have pass: "foldM (cleanupRoom K grid m ?V) ?V (cleanupView (st, False)) =
                 map_option cleanupView (foldM (cleanupRoomS K grid m rooms) rooms (st, False)) \<and>
                 (\<forall>s'. foldM (cleanupRoomS K grid m rooms) rooms (st, False) = Some s' \<longrightarrow>
                        simInv P h0 nb (fst s'))"
    proof (rule foldM_sim [where J = "\<lambda>s. simInv P h0 nb (fst s)"])
      show "simInv P h0 nb (fst (st, False))" using "1.prems" by simp
    next
      fix x and s :: "(Heap \<times> BoundsMap) \<times> bool"
      assume "simInv P h0 nb (fst s)"
      then show "cleanupRoom K grid m ?V (roomAt h0 x) (cleanupView s) =
                   map_option cleanupView (cleanupRoomS K grid m rooms x s) \<and>
                 (\<forall>s'. cleanupRoomS K grid m rooms x s = Some s' \<longrightarrow> simInv P h0 nb (fst s'))"
        by (rule cleanupRoom_sim)
    qed
    have cv: "cleanupView (st, False) = (storeView st, False)"
      by (simp add: cleanupView_def)
    have V: "cleanupLoop K grid m ?V (storeView st) hasOverlap safetyCounter =
               (case foldM (cleanupRoom K grid m ?V) ?V (storeView st, False) of
                  None \<Rightarrow> None
                | Some res \<Rightarrow> cleanupLoop K grid m ?V (fst res) (snd res) (safetyCounter + 1))"
      using True by (subst cleanupLoop.simps) simp
    have S: "cleanupLoopS K grid m rooms st hasOverlap safetyCounter =
               (case foldM (cleanupRoomS K grid m rooms) rooms (st, False) of
                  None \<Rightarrow> None
                | Some res \<Rightarrow> cleanupLoopS K grid m rooms (fst res) (snd res) (safetyCounter + 1))"
      using True by (subst cleanupLoopS.simps) simp
    show ?thesis
    proof (cases "foldM (cleanupRoomS K grid m rooms) rooms (st, False)")
      case None
      then show ?thesis
        unfolding V S using pass cv by simp
    next
      case (Some res)
      then have J': "simInv P h0 nb (fst res)" using pass by simp
      have Vres: "foldM (cleanupRoom K grid m ?V) ?V (storeView st, False) = Some (cleanupView res)"
        using pass Some cv by simp
      from "1.IH" [OF True Some J']
      show ?thesis
        unfolding V S Vres Some by (simp add: cleanupView_def)
    qed
  qed
qed


lemma copyBoundsS_sim:
  assumes "simInv P h0 nb st"
    and "\<forall>r \<in> set rooms. o_bounds r < length h0 \<and> P (o_bounds r)"
  shows "storeView (copyBoundsS rooms st) = copyBounds (map (roomAt h0) rooms) (storeView st) \<and>
         simInv P h0 nb (copyBoundsS rooms st)"
  using assms
proof (induction rooms arbitrary: st)
  case Nil
  then show ?case by simp
next
  case (Cons r rooms)
  let ?st1 = "(snd (alloc (fst st ! o_bounds r) (fst st)),
               mapSet (room_id (o_fields r)) (fst (alloc (fst st ! o_bounds r) (fst st))) (snd st))"
  have "roomAt (fst st) r = roomAt h0 r"
    using Cons.prems roomAt_framed [of P h0 "fst st" r] unfolding simInv_def storeInv_def by simp
  then have "bounds (roomAt (fst st) r) = bounds (roomAt h0 r)"
    by simp
  then have b: "fst st ! o_bounds r = bounds (roomAt h0 r)"
    by (simp add: roomAt_def)
  have J1: "simInv P h0 nb ?st1"
    using simInv_alloc [OF Cons.prems(1)] .
  have v1: "storeView ?st1 = (storeView st)(room_id (roomAt h0 r) \<mapsto> bounds (roomAt h0 r))"
    using storeView_alloc [OF Cons.prems(1)] b by (simp add: room_id_roomAt)
  have "storeView (copyBoundsS rooms ?st1) = copyBounds (map (roomAt h0) rooms) (storeView ?st1) \<and>
        simInv P h0 nb (copyBoundsS rooms ?st1)"
    using Cons.IH [OF J1] Cons.prems(2) by simp
  then show ?case
    unfolding v1 by (simp add: Let_def)
qed

lemma applyUpdates_sim:
  assumes fr: "framed P h0 h"
    and R: "\<forall>r \<in> set rooms. o_bounds r < length h0 \<and> P (o_bounds r)"
  shows "applyUpdates K (boundsView h wb) (map (roomAt h0) rooms) =
           map_option (map (roomAt h)) (applyUpdatesS K h wb rooms)"
  using R
proof (induction rooms)
  case Nil
  then show ?case by simp
next
  case (Cons room rooms)
  have same: "roomAt h room = roomAt h0 room"
    using fr Cons.prems roomAt_framed by simp
  have b: "bounds (roomAt h room) = h ! o_bounds room"
    by (simp add: roomAt_def)
  show ?case
  proof (cases "map_of wb (room_id (o_fields room))")
    case None
    then show ?thesis
      by (simp add: boundsView_def room_id_roomAt)
  next
    case (Some nref)
    let ?c = "b_x (h ! nref) = b_x (h ! o_bounds room) \<and>
              b_y (h ! nref) = b_y (h ! o_bounds room) \<and>
              b_width (h ! nref) = b_width (h ! o_bounds room) \<and>
              b_height (h ! nref) = b_height (h ! o_bounds room)"
    let ?new = "\<lparr>o_fields = updateRoom K (h ! nref) (roomAt h room), o_bounds = nref\<rparr>"
    have one: "roomAt h (if ?c then room else ?new) = updateRoom K (h ! nref) (roomAt h0 room)"
    proof (cases ?c)
      case True
      then have "updateRoom K (h ! nref) (roomAt h room) = roomAt h room"
        using b by (simp add: updateRoom_def)
      moreover from True have "(if ?c then room else ?new) = room"
        by (rule if_P)
      ultimately show ?thesis
        using same by simp
    next
      case False
      have "roomAt h ?new = (updateRoom K (h ! nref) (roomAt h room))\<lparr>bounds := h ! nref\<rparr>"
        by (simp add: roomAt_def)
      also have "\<dots> = updateRoom K (h ! nref) (roomAt h room)"
        using bounds_updateRoom [of K "h ! nref" "roomAt h room"]
        by (metis EditorRoom.surjective EditorRoom.update_convs(5))
      finally have "roomAt h ?new = updateRoom K (h ! nref) (roomAt h0 room)"
        using same by simp
      moreover from False have "(if ?c then room else ?new) = ?new"
        by (rule if_not_P)
      ultimately show ?thesis
        by (simp only:)
    qed
    have V: "applyUpdates K (boundsView h wb) (map (roomAt h0) (room # rooms)) =
               (case applyUpdates K (boundsView h wb) (map (roomAt h0) rooms) of
                  None \<Rightarrow> None
                | Some rest' \<Rightarrow> Some (updateRoom K (h ! nref) (roomAt h0 room) # rest'))"
      using Some by (simp add: boundsView_def room_id_roomAt)
    have S: "applyUpdatesS K h wb (room # rooms) =
               (case applyUpdatesS K h wb rooms of
                  None \<Rightarrow> None
                | Some rest' \<Rightarrow> Some ((if ?c then room else ?new) # rest'))"
      using Some by simp
    have ih: "applyUpdates K (boundsView h wb) (map (roomAt h0) rooms) =
                map_option (map (roomAt h)) (applyUpdatesS K h wb rooms)"
      using Cons by simp
    show ?thesis
      unfolding V S ih using one by (cases "applyUpdatesS K h wb rooms") simp_all
  qed
qed


lemma initial_state_sim:
  assumes nb: "newBounds < length h0"
    and R: "\<forall>r \<in> set rooms. o_bounds r < length h0 \<and> P (o_bounds r)"
  defines "st0 \<equiv> copyBoundsS rooms (h0, [])"
  shows "storeView (fst st0, mapSet m newBounds (snd st0)) =
           (copyBounds (map (roomAt h0) rooms) Map.empty)(m \<mapsto> h0 ! newBounds) \<and>
         simInv P h0 newBounds (fst st0, mapSet m newBounds (snd st0))"
proof -
  have J00: "simInv Q h0 k (h0, [])" for Q k
    unfolding simInv_def storeInv_def framed_def refsFresh_def by simp
  have v00: "storeView (h0, []) = Map.empty"
    by (simp add: storeView_def boundsView_def)
  have J0: "simInv P h0 newBounds st0"
    and v0: "storeView st0 = copyBounds (map (roomAt h0) rooms) Map.empty"
    using copyBoundsS_sim [OF J00 R] v00 unfolding st0_def by simp_all
  have "storeInv (\<lambda>a. True) h0 (length h0) st0"
    unfolding st0_def using J00 [of "\<lambda>a. True" "length h0"] copyBoundsS_inv
    unfolding simInv_def by blast
  then have fr: "framed (\<lambda>a. True) h0 (fst st0)"
    and fresh: "\<forall>e \<in> set (snd st0). length h0 \<le> snd e"
    unfolding storeInv_def refsFresh_def by auto
  have at_nb: "fst st0 ! newBounds = h0 ! newBounds"
    using fr nb unfolding framed_def by simp
  have vr: "\<forall>e \<in> set (snd st0). snd e < length (fst st0)"
    and dk: "distinct (map fst (snd st0))" and dr: "distinct (map snd (snd st0))"
    and si: "storeInv P h0 newBounds st0"
    using J0 unfolding simInv_def by simp_all
  have view: "storeView (fst st0, mapSet m newBounds (snd st0)) =
                (storeView st0)(m \<mapsto> h0 ! newBounds)"
    using storeView_extend_set [of "snd st0" "fst st0" "fst st0" m newBounds] vr at_nb
    by simp
  have "newBounds \<notin> snd ` set (snd st0)"
    using fresh nb by fastforce
  then have dr': "distinct (map snd (mapSet m newBounds (snd st0)))"
    using dr distinct_refs_mapSet by simp
  have vr': "\<forall>e \<in> set (mapSet m newBounds (snd st0)). snd e < length (fst st0)"
  proof
    fix e
    assume "e \<in> set (mapSet m newBounds (snd st0))"
    then have "e = (m, newBounds) \<or> e \<in> set (snd st0)"
      using set_mapSet [of m newBounds "snd st0"] by auto
    then show "snd e < length (fst st0)"
      using vr nb fr unfolding framed_def by auto
  qed
  have "storeInv P h0 newBounds (fst st0, mapSet m newBounds (snd st0))"
    using si refsFresh_mapSet unfolding storeInv_def by simp
  then have "simInv P h0 newBounds (fst st0, mapSet m newBounds (snd st0))"
    unfolding simInv_def using vr' dr' distinct_keys_mapSet [OF dk] by simp
  with view v0 show ?thesis
    by simp
qed

text \<open>
  The two models agree.  When the references are within the store and the caller's
  \<open>newBounds\<close> object is not the box of one of the rooms (or snapping is on), the room
  list that the store model returns, read through the store it leaves, is the room list
  of the value model.  (If \<open>newBounds\<close> is the box object of a room and snapping is off,
  the write to \<open>newBounds\<close> changes that room's box before the final comparison, which
  the value model cannot express.)
\<close>

theorem applySpringNetworkS_agrees:
  assumes nb: "newBounds < length h0"
    and refs: "\<forall>r \<in> set rooms. o_bounds r < length h0"
    and apart: "snapEnabled grid \<or> (\<forall>r \<in> set rooms. o_bounds r \<noteq> newBounds)"
  shows "map_option (\<lambda>res. map (roomAt (snd res)) (fst res))
           (applySpringNetworkS K m newBounds rooms grid iterations h0) =
         applySpringNetwork K m (h0 ! newBounds) (map (roomAt h0) rooms) grid iterations"
proof -
  define P where "P = (\<lambda>a. snapEnabled grid \<or> a \<noteq> newBounds)"
  let ?V = "map (roomAt h0) rooms"
  let ?g = "buildConnectivityGraph ?V"
  let ?dc = "case ?g m of None \<Rightarrow> [] | Some cs \<Rightarrow> cs"
  let ?st0 = "copyBoundsS rooms (h0, [])"
  let ?st1 = "(fst ?st0, mapSet m newBounds (snd ?st0))"
  let ?w1 = "(copyBounds ?V Map.empty)(m \<mapsto> h0 ! newBounds)"
  have R: "\<forall>r \<in> set rooms. o_bounds r < length h0 \<and> P (o_bounds r)"
    using refs apart unfolding P_def by auto
  have en: "snapEnabled grid \<or> \<not> P newBounds"
    unfolding P_def by simp
  have v1: "storeView ?st1 = ?w1" and J1: "simInv P h0 newBounds ?st1"
    using initial_state_sim [OF nb R, of m] by simp_all
  have S: "applySpringNetworkS K m newBounds rooms grid iterations h0 =
     (case settleS m rooms ?g ?dc iterations 0 ?st1 of
           None \<Rightarrow> None
         | Some settledSt \<Rightarrow>
             (case cleanupLoopS K grid m rooms (snapAllS K grid settledSt) True 0 of
                None \<Rightarrow> None
              | Some fin \<Rightarrow>
                  (case applyUpdatesS K (fst fin) (snd fin) rooms of
                     None \<Rightarrow> None
                   | Some result \<Rightarrow> Some (result, fst fin))))"
    by (simp add: applySpringNetworkS_def Let_def)
  have V: "applySpringNetwork K m (h0 ! newBounds) ?V grid iterations =
     (case settle m ?V ?g ?dc iterations 0 ?w1 of
           None \<Rightarrow> None
         | Some w2 \<Rightarrow>
             (case map_option fst (cleanupLoop K grid m ?V (snapAll K grid w2) True 0) of
                None \<Rightarrow> None
              | Some wbF \<Rightarrow> applyUpdates K wbF ?V))"
    by (simp add: applySpringNetwork_def applySpringNetworkRun_def Let_def split: option.splits)
  note s = settle_sim [OF J1 R, of m ?g ?dc iterations 0]
  show ?thesis
  proof (cases "settleS m rooms ?g ?dc iterations 0 ?st1")
    case None
    then have "settle m ?V ?g ?dc iterations 0 ?w1 = None"
      using s v1 by simp
    then show ?thesis
      unfolding S V using None by simp
  next
    case (Some st2)
    then have J2: "simInv P h0 newBounds st2"
      and w2: "settle m ?V ?g ?dc iterations 0 ?w1 = Some (storeView st2)"
      using s v1 by simp_all
    note sn = snapAll_sim [OF J2 en, of K]
    note c = cleanupLoop_sim [of P h0 newBounds "snapAllS K grid st2" K grid m rooms True 0]
    show ?thesis
    proof (cases "cleanupLoopS K grid m rooms (snapAllS K grid st2) True 0")
      case None
      then have "cleanupLoop K grid m ?V (snapAll K grid (storeView st2)) True 0 = None"
        using sn c by simp
      moreover have "applySpringNetworkS K m newBounds rooms grid iterations h0 = None"
        unfolding S using Some None by simp
      moreover have "applySpringNetwork K m (h0 ! newBounds) ?V grid iterations =
              (case map_option fst (cleanupLoop K grid m ?V (snapAll K grid (storeView st2)) True 0) of
                None \<Rightarrow> None
              | Some wbF \<Rightarrow> applyUpdates K wbF ?V)"
        unfolding V using w2 by simp
      ultimately show ?thesis
        by simp
    next
      case fin: (Some fin)
      then have J4: "simInv P h0 newBounds fin"
        and wF: "map_option fst (cleanupLoop K grid m ?V (snapAll K grid (storeView st2)) True 0) =
                   Some (storeView fin)"
        using sn c by simp_all
      have fr: "framed P h0 (fst fin)"
        using J4 unfolding simInv_def storeInv_def by simp
      have "applyUpdates K (storeView fin) ?V =
              map_option (map (roomAt (fst fin))) (applyUpdatesS K (fst fin) (snd fin) rooms)"
        using applyUpdates_sim [OF fr R] by (simp add: storeView_def)
      moreover have "applySpringNetworkS K m newBounds rooms grid iterations h0 =
              (case applyUpdatesS K (fst fin) (snd fin) rooms of
                 None \<Rightarrow> None
               | Some result \<Rightarrow> Some (result, fst fin))"
        unfolding S using Some fin by simp
      moreover have "applySpringNetwork K m (h0 ! newBounds) ?V grid iterations =
              applyUpdates K (storeView fin) ?V"
        unfolding V using w2 wF by auto
      ultimately show ?thesis
        by (cases "applyUpdatesS K (fst fin) (snd fin) rooms") simp_all
    qed
  qed
qed


subsection \<open>The caller's \<open>newBounds\<close> object\<close>

text \<open>
  Claim C4.  No engine function writes to its inputs: after \<open>applySpringNetwork\<close> the
  caller's room list, room objects, their boxes and the \<open>newBounds\<close> object are as
  before, also when \<open>snapEnabled\<close> is false.  The code does not keep this.  It stores the
  caller's \<open>newBounds\<close> object itself in the working map, and with snapping off
  \<open>snapBoundsToGrid\<close> hands that very object back, so the two assignments that keep a box
  within the canvas write to it.  Below, the store holds the box of room \<open>a\<close> at
  reference 0 and the caller's \<open>newBounds\<close> at reference 1, with \<open>x = -10\<close>; when the call
  returns, the object at reference 1 has \<open>x = 0\<close>.
\<close>

theorem applySpringNetwork_writes_newBounds:
  "map_option snd
     (applySpringNetworkS exampleConsts ''a'' 1
        [\<lparr>o_fields = plainRoom ''a'' (box 0 0 40 40) False, o_bounds = 0\<rparr>] (grid10 False) 8
        [box 0 0 40 40, box (- 10) 20 40 40]) =
   Some [box 0 0 40 40, box 0 20 40 40, box 0 0 40 40] \<and>
   [box 0 0 40 40, box 0 20 40 40, box 0 0 40 40] ! 1 \<noteq> box (- 10) 20 40 40"
  by (simp add: store_eval solver_eval)

text \<open>With snapping on, \<open>snapBoundsToGrid\<close> builds a new object and the caller's
  \<open>newBounds\<close> stays as it was: the same call leaves reference 1 alone.\<close>

lemma applySpringNetwork_snapping_spares_newBounds:
  "map_option snd
     (applySpringNetworkS exampleConsts ''a'' 1
        [\<lparr>o_fields = plainRoom ''a'' (box 0 0 40 40) False, o_bounds = 0\<rparr>] (grid10 True) 8
        [box 0 0 40 40, box (- 10) 20 40 40]) =
   Some [box 0 0 40 40, box (- 10) 20 40 40, box 0 0 40 40, box 0 20 40 40]"
  by (simp add: store_eval solver_eval)

end
